theory Spec2Isabelle
  imports Main
begin

section \<open>Strings and JavaScript regular expressions\<close>

text \<open>
  JavaScript strings are modelled as \<^typ>\<open>string\<close>; one \<^typ>\<open>char\<close> stands for one code unit
  below 256. The regular expressions of the sources are transcribed literally into the
  datatype \<open>regex\<close> and run by a backtracking matcher that returns every way a pattern can
  match at a position, in the priority order in which a backtracking engine tries them:
  the head of the list is the match JavaScript reports.
\<close>

definition LF :: char where "LF = CHR 0x0A"
definition CR :: char where "CR = CHR 0x0D"

datatype cset =
    Range char char
  | OneOf string
  | Union cset cset
  | Not cset

fun cmem :: "cset \<Rightarrow> char \<Rightarrow> bool" where
  "cmem (Range lo hi) c = ((of_char lo :: nat) \<le> of_char c \<and> (of_char c :: nat) \<le> of_char hi)"
| "cmem (OneOf cs) c = (c \<in> set cs)"
| "cmem (Union a b) c = (cmem a c \<or> cmem b c)"
| "cmem (Not a) c = (\<not> cmem a c)"

datatype regex =
    Eps
  | Cls cset
  | Seq regex regex
  | Alt regex regex
  | Star regex
  | StarLazy regex
  | Group nat regex
  | Bol
  | Eol
  | WordB
  | LookBehind regex
  | LookAhead regex

text \<open>A position is the consumed prefix (reversed) and the rest of the input.\<close>

type_synonym caps = "(nat \<times> string) list"
type_synonym pos = "string \<times> string"

text \<open>The classes \<open>\w\<close>, \<open>\s\<close>, \<open>\d\<close>, \<open>[a-zA-Z_]\<close> and the dot (no line terminator).\<close>

definition wordc :: cset where
  "wordc = Union (Range CHR ''a'' CHR ''z'') (Union (Range CHR ''A'' CHR ''Z'')
             (Union (Range CHR ''0'' CHR ''9'') (OneOf ''_'')))"

definition space :: cset where
  "space = Union (Range (CHR 0x09) (CHR 0x0D)) (OneOf [CHR 0x20, CHR 0xA0])"

definition digit :: cset where
  "digit = Range CHR ''0'' CHR ''9''"

definition idstart :: cset where
  "idstart = Union (Range CHR ''a'' CHR ''z'') (Union (Range CHR ''A'' CHR ''Z'') (OneOf ''_''))"

definition dot :: cset where
  "dot = Not (OneOf [CHR 0x0A, CHR 0x0D])"

definition at_word_boundary :: "pos \<Rightarrow> bool" where
  "at_word_boundary p =
     ((case fst p of [] \<Rightarrow> False | c # _ \<Rightarrow> cmem wordc c) \<noteq>
      (case snd p of [] \<Rightarrow> False | c # _ \<Rightarrow> cmem wordc c))"

fun rewind :: "nat \<Rightarrow> pos \<Rightarrow> pos" where
  "rewind 0 p = p"
| "rewind (Suc k) (b, a) = (case b of [] \<Rightarrow> (b, a) | c # b' \<Rightarrow> rewind k (b', c # a))"

text \<open>
  \<open>Star\<close> is the greedy and \<open>StarLazy\<close> the lazy repetition; an iteration that consumes
  nothing is rejected, as in ECMAScript. A lookbehind holds when the pattern matches some
  stretch of input that ends at the current position.
\<close>

function rmatch :: "regex \<Rightarrow> pos \<Rightarrow> caps \<Rightarrow> (pos \<times> caps) list" where
  "rmatch Eps p cs = [(p, cs)]"
| "rmatch (Cls S) p cs =
     (case snd p of [] \<Rightarrow> [] | c # a \<Rightarrow> if cmem S c then [((c # fst p, a), cs)] else [])"
| "rmatch (Seq r1 r2) p cs =
     concat (map (\<lambda>q. rmatch r2 (fst q) (snd q)) (rmatch r1 p cs))"
| "rmatch (Alt r1 r2) p cs = rmatch r1 p cs @ rmatch r2 p cs"
| "rmatch (Star r) p cs =
     concat (map (\<lambda>q. if length (snd (fst q)) < length (snd p)
                        then rmatch (Star r) (fst q) (snd q) else [])
                 (rmatch r p cs)) @ [(p, cs)]"
| "rmatch (StarLazy r) p cs =
     (p, cs) # concat (map (\<lambda>q. if length (snd (fst q)) < length (snd p)
                        then rmatch (StarLazy r) (fst q) (snd q) else [])
                 (rmatch r p cs))"
| "rmatch (Group n r) p cs =
     map (\<lambda>q. (fst q, (n, take (length (snd p) - length (snd (fst q))) (snd p)) # snd q))
         (rmatch r p cs)"
| "rmatch Bol p cs = (if fst p = [] then [(p, cs)] else [])"
| "rmatch Eol p cs = (if snd p = [] then [(p, cs)] else [])"
| "rmatch WordB p cs = (if at_word_boundary p then [(p, cs)] else [])"
| "rmatch (LookBehind r) p cs =
     (if (\<exists>k \<in> set [0..<Suc (length (fst p))].
            \<exists>q \<in> set (rmatch r (rewind k p) cs). length (snd (fst q)) = length (snd p))
      then [(p, cs)] else [])"
| "rmatch (LookAhead r) p cs =
     (case rmatch r p cs of [] \<Rightarrow> [] | q # _ \<Rightarrow> [(p, snd q)])"
  by pat_completeness auto
termination
  by (relation "measures [\<lambda>(r, p, cs). size r, \<lambda>(r, p, cs). length (snd p)]") auto

text \<open>The equations of the two repetitions call themselves and are unfolded by hand.\<close>

declare rmatch.simps(5) [simp del]
declare rmatch.simps(6) [simp del]

definition Lit :: "char \<Rightarrow> regex" where
  "Lit c = Cls (OneOf [c])"

fun Str :: "string \<Rightarrow> regex" where
  "Str [] = Eps"
| "Str [c] = Lit c"
| "Str (c # cs) = Seq (Lit c) (Str cs)"

fun Seqs :: "regex list \<Rightarrow> regex" where
  "Seqs [] = Eps"
| "Seqs [r] = r"
| "Seqs (r # rs) = Seq r (Seqs rs)"

definition Plus :: "regex \<Rightarrow> regex" where
  "Plus r = Seq r (Star r)"

definition PlusLazy :: "regex \<Rightarrow> regex" where
  "PlusLazy r = Seq r (StarLazy r)"

definition Opt :: "regex \<Rightarrow> regex" where
  "Opt r = Alt r Eps"

definition ident :: regex where
  "ident = Seq (Cls idstart) (Star (Cls wordc))"

text \<open>
  \<open>search\<close> is the unanchored search of \<open>RegExp.prototype.exec\<close>: the leftmost start
  position at which the pattern matches, with the first match there. It returns the start
  position, the end position and the captures.
\<close>

fun search :: "regex \<Rightarrow> pos \<Rightarrow> (pos \<times> pos \<times> caps) option" where
  "search r (b, []) = (case rmatch r (b, []) [] of q # _ \<Rightarrow> Some ((b, []), q) | [] \<Rightarrow> None)"
| "search r (b, c # a) =
     (case rmatch r (b, c # a) [] of q # _ \<Rightarrow> Some ((b, c # a), q) | [] \<Rightarrow> search r (c # b, a))"

text \<open>\<open>str.match(re)\<close> without the global flag: the captures of the first match.\<close>

definition exec :: "regex \<Rightarrow> string \<Rightarrow> caps option" where
  "exec r s = map_option (\<lambda>m. snd (snd m)) (search r ([], s))"

text \<open>
  A group of a match. Every group the sources read stands outside the optional parts of
  its pattern, so it is defined whenever the pattern matches.
\<close>

definition group :: "caps \<Rightarrow> nat \<Rightarrow> string" where
  "group m n = (case map_of m n of Some s \<Rightarrow> s | None \<Rightarrow> [])"

text \<open>\<open>re.test(str)\<close>.\<close>

definition test :: "regex \<Rightarrow> string \<Rightarrow> bool" where
  "test r s = (search r ([], s) \<noteq> None)"

text \<open>
  \<open>str.match(re)\<close> with the global flag: the matched substrings, left to right, each search
  resuming where the previous match ended (one further when the match was empty). The
  counter \<open>skip\<close> is the number of characters still inside the previous match.
\<close>

fun match_all_from :: "regex \<Rightarrow> pos \<Rightarrow> nat \<Rightarrow> string list" where
  "match_all_from r (b, []) skip =
     (if 0 < skip then []
      else (case rmatch r (b, []) [] of [] \<Rightarrow> [] | q # _ \<Rightarrow> [[]]))"
| "match_all_from r (b, c # a) skip =
     (if 0 < skip then match_all_from r (c # b, a) (skip - 1)
      else (case rmatch r (b, c # a) [] of
              [] \<Rightarrow> match_all_from r (c # b, a) 0
            | q # _ \<Rightarrow>
                (let n = length (c # a) - length (snd (fst q))
                 in take n (c # a) # match_all_from r (c # b, a) (n - 1))))"

definition match_all :: "regex \<Rightarrow> string \<Rightarrow> string list" where
  "match_all r s = match_all_from r ([], s) 0"

text \<open>\<open>String.prototype.trim\<close>, \<open>includes\<close> and \<open>split("\n")\<close>.\<close>

definition trim :: "string \<Rightarrow> string" where
  "trim s = rev (dropWhile (cmem space) (rev (dropWhile (cmem space) s)))"

fun includes_str :: "string \<Rightarrow> string \<Rightarrow> bool" where
  "includes_str [] sub = (sub = [])"
| "includes_str (c # cs) sub = (take (length sub) (c # cs) = sub \<or> includes_str cs sub)"

fun split_lf :: "string \<Rightarrow> string list" where
  "split_lf [] = [[]]"
| "split_lf (c # cs) =
     (if c = LF then [] # split_lf cs
      else (case split_lf cs of [] \<Rightarrow> [[c]] | l # ls \<Rightarrow> (c # l) # ls))"

text \<open>The decimal rendering of a line number in a template string.\<close>

function show_nat :: "nat \<Rightarrow> string" where
  "show_nat n = (if n < 10 then [''0123456789'' ! n]
                 else show_nat (n div 10) @ [''0123456789'' ! (n mod 10)])"
  by pat_completeness auto
termination
  by (relation "measure id") auto

section \<open>The pattern library (regexPatterns.ts)\<close>

definition CLASS_NAME :: regex where
  "CLASS_NAME = Seqs [WordB, Str ''class'', Plus (Cls space), Group 1 ident]"

definition ACTOR_NAME :: regex where
  "ACTOR_NAME = Seqs [WordB, Str ''actor'', Plus (Cls space), Group 1 ident]"

definition NAME_WITH_OPTIONAL_IO :: regex where
  "NAME_WITH_OPTIONAL_IO =
     Seqs [Opt (Seq (Str ''io'') (Plus (Cls space))), Str ''fun'', Plus (Cls space), Group 1 ident]"

definition KEYWORD_AND_NAME :: regex where
  "KEYWORD_AND_NAME =
     Seqs [WordB, Group 1 (Alt (Str ''var'') (Str ''val'')), Plus (Cls space), Group 2 ident]"

definition ARGUMENT_NAME_IN_SIGNATURE :: regex where
  "ARGUMENT_NAME_IN_SIGNATURE =
     Seqs [LookBehind (Seq (Cls (OneOf ''(,'')) (Star (Cls space))),
           Cls idstart, Star (Cls wordc),
           LookAhead (Seq (Star (Cls space)) (Lit CHR '':''))]"

definition BUILTIN_TYPES_INT :: regex where
  "BUILTIN_TYPES_INT = Seqs [Bol, Opt (Cls (OneOf ''+-'')), Plus (Cls digit),
               Opt (Group 1 (Seq (Lit CHR ''.'') (Plus (Cls digit)))), Eol]"

text \<open>
  The extract functions return the record of the match or absence; the records of the
  four below hold one name each, so the name stands for the record.
\<close>

definition extractClassName :: "string \<Rightarrow> string option" where
  "extractClassName ln = (case exec CLASS_NAME ln of None \<Rightarrow> None | Some m \<Rightarrow> Some (group m 1))"

definition extractActorName :: "string \<Rightarrow> string option" where
  "extractActorName ln = (case exec ACTOR_NAME ln of None \<Rightarrow> None | Some m \<Rightarrow> Some (group m 1))"

definition extractFunctionNameWithOptionalIo :: "string \<Rightarrow> string option" where
  "extractFunctionNameWithOptionalIo ln =
     (case exec NAME_WITH_OPTIONAL_IO ln of None \<Rightarrow> None | Some m \<Rightarrow> Some (group m 1))"

definition extractDeclarationKeywordAndName :: "string \<Rightarrow> string option" where
  "extractDeclarationKeywordAndName ln =
     (case exec KEYWORD_AND_NAME ln of None \<Rightarrow> None | Some m \<Rightarrow> Some (group m 2))"

definition isIntLiteral :: "string \<Rightarrow> bool" where
  "isIntLiteral expr = test BUILTIN_TYPES_INT expr"


















section \<open>The structural parser (core/parser.ts)\<close>

datatype NodeKind = Program | Class | Actor | Function | Variable | Block

text \<open>
  An \<open>ASTNode\<close> owns its children; the \<open>parent\<close> field of the source is a back-reference
  that no function of the parser reads, and is left out.
\<close>

datatype ASTNode =
  ASTNode (kind: NodeKind) (name: string) (line: nat) (startLine: nat) (endLine: nat)
          (children: "ASTNode list")

text \<open>Reading \<open>this.lines[i]\<close> out of range gives \<open>undefined\<close>, and matching on it throws.\<close>

datatype error = TypeError

text \<open>
  \<open>findBlockEnd\<close>: \<open>countBraces\<close> is the inner loop over the characters of one line,
  \<open>None\<close> when the function returns on that line; \<open>findBlockEndFrom\<close> is the outer loop,
  \<open>None\<close> when it runs off the document, where \<open>findBlockEnd\<close> falls back to the last line.
\<close>

fun countBraces :: "string \<Rightarrow> int \<Rightarrow> bool \<Rightarrow> (int \<times> bool) option" where
  "countBraces [] braceCount foundStart = Some (braceCount, foundStart)"
| "countBraces (c # cs) braceCount foundStart =
     (if c = CHR ''{'' then countBraces cs (braceCount + 1) True
      else if c = CHR ''}'' then
        (if foundStart \<and> braceCount - 1 = 0 then None
         else countBraces cs (braceCount - 1) foundStart)
      else countBraces cs braceCount foundStart)"

function findBlockEndFrom :: "string list \<Rightarrow> nat \<Rightarrow> int \<Rightarrow> bool \<Rightarrow> nat option" where
  "findBlockEndFrom lines i braceCount foundStart =
     (if i < length lines then
        (case countBraces (lines ! i) braceCount foundStart of
           None \<Rightarrow> Some i
         | Some st \<Rightarrow> findBlockEndFrom lines (i + 1) (fst st) (snd st))
      else None)"
  by pat_completeness auto
termination
  by (relation "measure (\<lambda>(lines, i, braceCount, foundStart). length lines - i)") auto

declare findBlockEndFrom.simps [simp del]

definition findBlockEnd :: "string list \<Rightarrow> nat \<Rightarrow> nat" where
  "findBlockEnd lines start =
     (case findBlockEndFrom lines start 0 False of
        Some i \<Rightarrow> i
      | None \<Rightarrow> length lines - 1)"

text \<open>\<open>parseArguments\<close> (the current revision): one variable node per match.\<close>

definition parseArguments :: "string \<Rightarrow> nat \<Rightarrow> ASTNode list" where
  "parseArguments ln lineNumber =
     map (\<lambda>argName. ASTNode Variable (trim argName) lineNumber lineNumber lineNumber [])
         (match_all ARGUMENT_NAME_IN_SIGNATURE ln)"

text \<open>
  The earlier revision of \<open>parseArguments\<close> kept in the same file reads only the first
  match, \<open>argumentsMatch[0].split(",")\<close>, and makes one node for each piece of it.
\<close>

fun split_comma :: "string \<Rightarrow> string list" where
  "split_comma [] = [[]]"
| "split_comma (c # cs) =
     (if c = CHR '','' then [] # split_comma cs
      else (case split_comma cs of [] \<Rightarrow> [[c]] | l # ls \<Rightarrow> (c # l) # ls))"

definition parseArguments_rev1 :: "string \<Rightarrow> nat \<Rightarrow> ASTNode list" where
  "parseArguments_rev1 ln lineNumber =
     (case match_all ARGUMENT_NAME_IN_SIGNATURE ln of
        [] \<Rightarrow> []
      | m # ms \<Rightarrow>
          map (\<lambda>arg. ASTNode Variable (trim arg) lineNumber lineNumber lineNumber [])
              (split_comma m))"

text \<open>
  The loops of \<open>parseBlockContent\<close> and \<open>parseTopLevel\<close> are recursions on the line index
  \<open>i\<close>; the children pushed to the parent are returned as a list. The helper
  \<open>processFunctionDefinition\<close> of the source is unfolded into \<open>parseBlockContent\<close>, with
  which it is mutually recursive. The recursion ends because \<open>findBlockEnd\<close> never returns a
  line before the one it starts from.
\<close>

lemma findBlockEndFrom_bounds:
  "findBlockEndFrom lines i bc fs = Some j \<Longrightarrow> i \<le> j \<and> j < length lines"
proof (induction lines i bc fs rule: findBlockEndFrom.induct)
  case (1 lines i braceCount foundStart)
  show ?case
  proof (cases "i < length lines")
    case False
    with "1.prems" show ?thesis by (simp add: findBlockEndFrom.simps)
  next
    case True
    show ?thesis
    proof (cases "countBraces (lines ! i) braceCount foundStart")
      case None
      with True "1.prems" show ?thesis by (simp add: findBlockEndFrom.simps)
    next
      case (Some st)
      with True "1.prems" have "findBlockEndFrom lines (i + 1) (fst st) (snd st) = Some j"
        by (simp add: findBlockEndFrom.simps)
      with "1.IH"[OF True Some] show ?thesis by simp
    qed
  qed
qed

lemma findBlockEnd_ge: "i < length lines \<Longrightarrow> i \<le> findBlockEnd lines i"
  by (auto simp: findBlockEnd_def split: option.splits dest: findBlockEndFrom_bounds)

lemma findBlockEnd_less: "lines \<noteq> [] \<Longrightarrow> findBlockEnd lines i < length lines"
  by (auto simp: findBlockEnd_def split: option.splits dest: findBlockEndFrom_bounds)

lemma findBlockEnd_after:
  "i < length lines \<Longrightarrow> length lines - Suc (findBlockEnd lines i) < length lines - i"
  using findBlockEnd_ge[of i lines] by simp

function parseBlockContent :: "string list \<Rightarrow> nat \<Rightarrow> nat \<Rightarrow> error + ASTNode list" where
  "parseBlockContent lines i end =
     (if end < i then Inr []
      else if length lines \<le> i then Inl TypeError
      else
        (case extractFunctionNameWithOptionalIo (lines ! i) of
           Some funName \<Rightarrow>
             (case parseBlockContent lines (i + 1) (findBlockEnd lines i) of
                Inl e \<Rightarrow> Inl e
              | Inr body \<Rightarrow>
                  (case parseBlockContent lines (findBlockEnd lines i + 1) end of
                     Inl e \<Rightarrow> Inl e
                   | Inr rest \<Rightarrow>
                       Inr (ASTNode Function funName i i (findBlockEnd lines i)
                              (body @ parseArguments (lines ! i) i) # rest)))
         | None \<Rightarrow>
             (case extractDeclarationKeywordAndName (lines ! i) of
                Some varName \<Rightarrow>
                  (case parseBlockContent lines (i + 1) end of
                     Inl e \<Rightarrow> Inl e
                   | Inr rest \<Rightarrow> Inr (ASTNode Variable varName i i i [] # rest))
              | None \<Rightarrow>
                  (if includes_str (lines ! i) ''while'' \<or> includes_str (lines ! i) ''if''
                      \<or> includes_str (lines ! i) ''else'' \<or> includes_str (lines ! i) ''for''
                   then
                     (case parseBlockContent lines (i + 1) (findBlockEnd lines i) of
                        Inl e \<Rightarrow> Inl e
                      | Inr body \<Rightarrow>
                          (case parseBlockContent lines (findBlockEnd lines i + 1) end of
                             Inl e \<Rightarrow> Inl e
                           | Inr rest \<Rightarrow>
                               Inr (ASTNode Block (''block_'' @ show_nat i) i i
                                      (findBlockEnd lines i) body # rest)))
                   else parseBlockContent lines (i + 1) end))))"
  by pat_completeness auto
termination
  by (relation "measure (\<lambda>(lines, i, end). length lines - i)")
     (auto simp: findBlockEnd_after)


declare parseBlockContent.simps [simp del]

definition processClassDefinition :: "string list \<Rightarrow> string \<Rightarrow> nat \<Rightarrow> error + ASTNode" where
  "processClassDefinition lines className lineIndex =
     (case parseBlockContent lines (lineIndex + 1) (findBlockEnd lines lineIndex) of
        Inl e \<Rightarrow> Inl e
      | Inr body \<Rightarrow>
          Inr (ASTNode Class className lineIndex lineIndex (findBlockEnd lines lineIndex)
                 (body @ parseArguments (lines ! lineIndex) lineIndex)))"

definition processActorDefinition :: "string list \<Rightarrow> string \<Rightarrow> nat \<Rightarrow> error + ASTNode" where
  "processActorDefinition lines actorName lineIndex =
     (case parseBlockContent lines (lineIndex + 1) (findBlockEnd lines lineIndex) of
        Inl e \<Rightarrow> Inl e
      | Inr body \<Rightarrow>
          Inr (ASTNode Actor actorName lineIndex lineIndex (findBlockEnd lines lineIndex)
                 (body @ parseArguments (lines ! lineIndex) lineIndex)))"

lemma processClassDefinition_endLine:
  "processClassDefinition lines c i = Inr n \<Longrightarrow> endLine n = findBlockEnd lines i"
  by (auto simp: processClassDefinition_def split: sum.splits)

lemma processActorDefinition_endLine:
  "processActorDefinition lines c i = Inr n \<Longrightarrow> endLine n = findBlockEnd lines i"
  by (auto simp: processActorDefinition_def split: sum.splits)

function parseTopLevel :: "string list \<Rightarrow> nat \<Rightarrow> nat \<Rightarrow> error + ASTNode list" where
  "parseTopLevel lines i end =
     (if end < i then Inr []
      else if length lines \<le> i then Inl TypeError
      else
        (case extractClassName (lines ! i) of
           Some className \<Rightarrow>
             (case processClassDefinition lines className i of
                Inl e \<Rightarrow> Inl e
              | Inr classNode \<Rightarrow>
                  (case parseTopLevel lines (endLine classNode + 1) end of
                     Inl e \<Rightarrow> Inl e
                   | Inr rest \<Rightarrow> Inr (classNode # rest)))
         | None \<Rightarrow>
             (case extractActorName (lines ! i) of
                Some actorName \<Rightarrow>
                  (case processActorDefinition lines actorName i of
                     Inl e \<Rightarrow> Inl e
                   | Inr actorNode \<Rightarrow>
                       (case parseTopLevel lines (endLine actorNode + 1) end of
                          Inl e \<Rightarrow> Inl e
                        | Inr rest \<Rightarrow> Inr (actorNode # rest)))
              | None \<Rightarrow> parseTopLevel lines (i + 1) end)))"
  by pat_completeness auto
termination
  by (relation "measure (\<lambda>(lines, i, end). length lines - i)")
     (auto simp: findBlockEnd_after dest!: processClassDefinition_endLine processActorDefinition_endLine)

declare parseTopLevel.simps [simp del]

definition parse :: "string \<Rightarrow> error + ASTNode" where
  "parse text =
     (let lines = split_lf text in
      case parseTopLevel lines 0 (length lines - 1) of
        Inl e \<Rightarrow> Inl e
      | Inr cs \<Rightarrow> Inr (ASTNode Program ''root'' 0 0 (length lines - 1) cs))"


text \<open>All nodes of a tree, the root first.\<close>

fun nodes :: "ASTNode \<Rightarrow> ASTNode list" where
  "nodes (ASTNode k nm l s e cs) = ASTNode k nm l s e cs # concat (map nodes cs)"

section \<open>Types (\<open>TypeInfo\<close>, and the records of the type registry)\<close>

text \<open>
  A \<open>TypeInfo\<close> is \<open>{kind, generics?, readonlyName?}\<close>. The kind is the string it is at
  run time, so that the two generations of kind names in the sources (\<open>RandomAny\<close> in the
  inference engine, \<open>Unknown\<close> in the registry) live in one type.
\<close>

datatype TypeInfo =
  TypeInfo (tkind: string) (generics: "TypeInfo list option") (readonlyName: "string option")

record ParamInfo =
  param_name :: string
  param_type :: TypeInfo

record MethodInfo =
  method_name :: string
  returnType :: TypeInfo
  params :: "ParamInfo list"
  documentation :: "string option"

record FieldInfo =
  field_name :: string
  field_type :: TypeInfo
  mutable :: bool

record TypeDefinition =
  def_kind :: string
  def_name :: string
  genericParams :: "string list option"
  methods :: "MethodInfo list"
  def_fields :: "FieldInfo list"

record TypeRegistry =
  builtinTypes :: "(string \<times> TypeDefinition) list"
  userTypes :: "(string \<times> TypeDefinition) list"



definition make :: "string \<Rightarrow> TypeInfo list option \<Rightarrow> string option \<Rightarrow> TypeInfo" where
  "make k gs r = TypeInfo k gs r"

definition t :: "string \<Rightarrow> TypeInfo list option \<Rightarrow> string option \<Rightarrow> TypeInfo" where
  "t k gs r = TypeInfo k gs r"

definition generic :: "string \<Rightarrow> TypeInfo" where
  "generic nm = TypeInfo ''Unknown'' None (Some nm)"

lemma size_generics:
  "generics a = Some gs \<Longrightarrow> g \<in> set gs \<Longrightarrow> size g < size a"
  by (cases a) (auto dest: size_list_estimation'[where f = size and y = "size g"] simp: less_Suc_eq_le)

section \<open>The builtin catalog (builtinDefinition.ts)\<close>

definition builtin_Int :: TypeDefinition where
  "builtin_Int =
     \<lparr>def_kind = ''Int'', def_name = ''Int'',
      genericParams = None,
      methods =
        [\<lparr>method_name = ''toString'', returnType = t ''String'' None None,
            params = [],
            documentation = Some ''Convert to string''\<rparr>,
         \<lparr>method_name = ''abs'', returnType = t ''Int'' None None,
            params = [],
            documentation = Some ''Absolute value''\<rparr>],
      def_fields = []\<rparr>"

definition builtin_String :: TypeDefinition where
  "builtin_String =
     \<lparr>def_kind = ''String'', def_name = ''String'',
      genericParams = None,
      methods =
        [\<lparr>method_name = ''length'', returnType = t ''Int'' None None,
            params = [],
            documentation = Some ''Get string length''\<rparr>,
         \<lparr>method_name = ''substring'', returnType = t ''String'' None None,
            params =
              [\<lparr>param_name = ''start'', param_type = t ''Int'' None None\<rparr>,
               \<lparr>param_name = ''end'', param_type = t ''Int'' None None\<rparr>],
            documentation = Some ''Get substring from start to end''\<rparr>,
         \<lparr>method_name = ''toUpperCase'', returnType = t ''String'' None None,
            params = [],
            documentation = Some ''Convert to uppercase''\<rparr>,
         \<lparr>method_name = ''toLowerCase'', returnType = t ''String'' None None,
            params = [],
            documentation = Some ''Convert to lowercase''\<rparr>,
         \<lparr>method_name = ''contains'', returnType = t ''Bool'' None None,
            params =
              [\<lparr>param_name = ''str'', param_type = t ''String'' None None\<rparr>],
            documentation = Some ''Check if string contains substring''\<rparr>,
         \<lparr>method_name = ''startsWith'', returnType = t ''Bool'' None None,
            params =
              [\<lparr>param_name = ''prefix'', param_type = t ''String'' None None\<rparr>],
            documentation = Some ''Check if string starts with prefix''\<rparr>,
         \<lparr>method_name = ''endsWith'', returnType = t ''Bool'' None None,
            params =
              [\<lparr>param_name = ''suffix'', param_type = t ''String'' None None\<rparr>],
            documentation = Some ''Check if string ends with suffix''\<rparr>,
         \<lparr>method_name = ''trim'', returnType = t ''String'' None None,
            params = [],
            documentation = Some ''Remove leading and trailing whitespace''\<rparr>,
         \<lparr>method_name = ''split'', returnType = t ''List'' (Some [t ''String'' None None]) None,
            params =
              [\<lparr>param_name = ''delimiter'', param_type = t ''String'' None None\<rparr>],
            documentation = Some ''Split string by delimiter''\<rparr>,
         \<lparr>method_name = ''replace'', returnType = t ''String'' None None,
            params =
              [\<lparr>param_name = ''old'', param_type = t ''String'' None None\<rparr>,
               \<lparr>param_name = ''new'', param_type = t ''String'' None None\<rparr>],
            documentation = Some ''Replace occurrences of old with new''\<rparr>,
         \<lparr>method_name = ''charAt'', returnType = t ''String'' None None,
            params =
              [\<lparr>param_name = ''index'', param_type = t ''Int'' None None\<rparr>],
            documentation = Some ''Get character at index''\<rparr>,
         \<lparr>method_name = ''indexOf'', returnType = t ''Int'' None None,
            params =
              [\<lparr>param_name = ''str'', param_type = t ''String'' None None\<rparr>],
            documentation = Some ''Find index of substring''\<rparr>],
      def_fields = []\<rparr>"

definition builtin_Bool :: TypeDefinition where
  "builtin_Bool =
     \<lparr>def_kind = ''Bool'', def_name = ''Bool'',
      genericParams = None,
      methods =
        [\<lparr>method_name = ''toString'', returnType = t ''String'' None None,
            params = [],
            documentation = Some ''Convert to string''\<rparr>],
      def_fields = []\<rparr>"

definition builtin_List :: TypeDefinition where
  "builtin_List =
     \<lparr>def_kind = ''List'', def_name = ''List'',
      genericParams = Some [''T''],
      methods =
        [\<lparr>method_name = ''add'', returnType = t ''Unknown'' None (Some ''Unit''),
            params =
              [\<lparr>param_name = ''element'', param_type = generic ''T''\<rparr>],
            documentation = Some ''Add element to list''\<rparr>,
         \<lparr>method_name = ''get'', returnType = generic ''T'',
            params =
              [\<lparr>param_name = ''index'', param_type = t ''Int'' None None\<rparr>],
            documentation = Some ''Get element at index''\<rparr>,
         \<lparr>method_name = ''set'', returnType = t ''Unknown'' None (Some ''Unit''),
            params =
              [\<lparr>param_name = ''index'', param_type = t ''Int'' None None\<rparr>,
               \<lparr>param_name = ''element'', param_type = generic ''T''\<rparr>],
            documentation = Some ''Set element at index''\<rparr>,
         \<lparr>method_name = ''remove'', returnType = t ''Bool'' None None,
            params =
              [\<lparr>param_name = ''index'', param_type = t ''Int'' None None\<rparr>],
            documentation = Some ''Remove element at index''\<rparr>,
         \<lparr>method_name = ''size'', returnType = t ''Int'' None None,
            params = [],
            documentation = Some ''Get list size''\<rparr>,
         \<lparr>method_name = ''isEmpty'', returnType = t ''Bool'' None None,
            params = [],
            documentation = Some ''Check if list is empty''\<rparr>,
         \<lparr>method_name = ''contains'', returnType = t ''Bool'' None None,
            params =
              [\<lparr>param_name = ''element'', param_type = generic ''T''\<rparr>],
            documentation = Some ''Check if list contains element''\<rparr>,
         \<lparr>method_name = ''indexOf'', returnType = t ''Int'' None None,
            params =
              [\<lparr>param_name = ''element'', param_type = generic ''T''\<rparr>],
            documentation = Some ''Find index of element''\<rparr>,
         \<lparr>method_name = ''clear'', returnType = t ''Unknown'' None (Some ''Unit''),
            params = [],
            documentation = Some ''Remove all elements''\<rparr>,
         \<lparr>method_name = ''first'', returnType = generic ''T'',
            params = [],
            documentation = Some ''Get first element''\<rparr>,
         \<lparr>method_name = ''last'', returnType = generic ''T'',
            params = [],
            documentation = Some ''Get last element''\<rparr>],
      def_fields = []\<rparr>"

definition builtin_MutableMap :: TypeDefinition where
  "builtin_MutableMap =
     \<lparr>def_kind = ''MutableMap'', def_name = ''MutableMap'',
      genericParams = Some [''K'', ''V''],
      methods =
        [\<lparr>method_name = ''put'', returnType = t ''Unknown'' None (Some ''Unit''),
            params =
              [\<lparr>param_name = ''key'', param_type = generic ''K''\<rparr>,
               \<lparr>param_name = ''value'', param_type = generic ''V''\<rparr>],
            documentation = Some ''Put key-value pair''\<rparr>,
         \<lparr>method_name = ''get'', returnType = generic ''V'',
            params =
              [\<lparr>param_name = ''key'', param_type = generic ''K''\<rparr>],
            documentation = Some ''Get value by key''\<rparr>,
         \<lparr>method_name = ''remove'', returnType = t ''Bool'' None None,
            params =
              [\<lparr>param_name = ''key'', param_type = generic ''K''\<rparr>],
            documentation = Some ''Remove entry by key''\<rparr>,
         \<lparr>method_name = ''containsKey'', returnType = t ''Bool'' None None,
            params =
              [\<lparr>param_name = ''key'', param_type = generic ''K''\<rparr>],
            documentation = Some ''Check if map contains key''\<rparr>,
         \<lparr>method_name = ''containsValue'', returnType = t ''Bool'' None None,
            params =
              [\<lparr>param_name = ''value'', param_type = generic ''V''\<rparr>],
            documentation = Some ''Check if map contains value''\<rparr>,
         \<lparr>method_name = ''keys'', returnType = t ''List'' (Some [generic ''K'']) None,
            params = [],
            documentation = Some ''Get all keys''\<rparr>,
         \<lparr>method_name = ''values'', returnType = t ''List'' (Some [generic ''V'']) None,
            params = [],
            documentation = Some ''Get all values''\<rparr>,
         \<lparr>method_name = ''size'', returnType = t ''Int'' None None,
            params = [],
            documentation = Some ''Get map size''\<rparr>,
         \<lparr>method_name = ''isEmpty'', returnType = t ''Bool'' None None,
            params = [],
            documentation = Some ''Check if map is empty''\<rparr>,
         \<lparr>method_name = ''clear'', returnType = t ''Unknown'' None (Some ''Unit''),
            params = [],
            documentation = Some ''Remove all entries''\<rparr>],
      def_fields = []\<rparr>"

definition builtin_MutableSet :: TypeDefinition where
  "builtin_MutableSet =
     \<lparr>def_kind = ''MutableSet'', def_name = ''MutableSet'',
      genericParams = Some [''T''],
      methods =
        [\<lparr>method_name = ''add'', returnType = t ''Bool'' None None,
            params =
              [\<lparr>param_name = ''element'', param_type = generic ''T''\<rparr>],
            documentation = Some ''Add element to set''\<rparr>,
         \<lparr>method_name = ''remove'', returnType = t ''Bool'' None None,
            params =
              [\<lparr>param_name = ''element'', param_type = generic ''T''\<rparr>],
            documentation = Some ''Remove element from set''\<rparr>,
         \<lparr>method_name = ''contains'', returnType = t ''Bool'' None None,
            params =
              [\<lparr>param_name = ''element'', param_type = generic ''T''\<rparr>],
            documentation = Some ''Check if set contains element''\<rparr>,
         \<lparr>method_name = ''size'', returnType = t ''Int'' None None,
            params = [],
            documentation = Some ''Get set size''\<rparr>,
         \<lparr>method_name = ''isEmpty'', returnType = t ''Bool'' None None,
            params = [],
            documentation = Some ''Check if set is empty''\<rparr>,
         \<lparr>method_name = ''clear'', returnType = t ''Unknown'' None (Some ''Unit''),
            params = [],
            documentation = Some ''Remove all elements''\<rparr>],
      def_fields = []\<rparr>"

definition initBuiltinTypes :: "(string \<times> TypeDefinition) list" where
  "initBuiltinTypes =
     [(''Int'', builtin_Int),
      (''String'', builtin_String),
      (''Bool'', builtin_Bool),
      (''List'', builtin_List),
      (''MutableMap'', builtin_MutableMap),
      (''MutableSet'', builtin_MutableSet)]"

section \<open>The type registry (class \<open>TypeRegistry\<close>, kept in core/parser.ts)\<close>

text \<open>
  The registry holds the two catalogs, each a JavaScript \<open>Map\<close> from names to
  definitions, kept as an association list. Its methods are written in state-passing
  style: each returns its result and the registry it leaves behind.
\<close>

definition new_TypeRegistry :: TypeRegistry where
  "new_TypeRegistry = \<lparr>builtinTypes = initBuiltinTypes, userTypes = []\<rparr>"

text \<open>
  \<open>resolveGenericType\<close>: \<open>if (type.readonlyName)\<close> holds for a name that is present and
  not empty.
\<close>

function resolveGenericType :: "TypeInfo \<Rightarrow> (string \<rightharpoonup> TypeInfo) \<Rightarrow> TypeInfo" where
  "resolveGenericType ty genericMap =
     (case (case readonlyName ty of
              Some nm \<Rightarrow> if nm \<noteq> [] then genericMap nm else None
            | None \<Rightarrow> None) of
        Some mappedType \<Rightarrow> mappedType
      | None \<Rightarrow>
          (case generics ty of
             Some gs \<Rightarrow>
               TypeInfo (tkind ty) (Some (map (\<lambda>g. resolveGenericType g genericMap) gs))
                 (readonlyName ty)
           | None \<Rightarrow> ty))"
  by pat_completeness auto
termination
  by (relation "measure (\<lambda>(ty, genericMap). size ty)") (auto dest: size_generics)

declare resolveGenericType.simps [simp del]

definition resolveGenericMethods :: "TypeDefinition \<Rightarrow> TypeInfo \<Rightarrow> MethodInfo list" where
  "resolveGenericMethods typeDef typeInfo =
     (case genericParams typeDef of
        None \<Rightarrow> methods typeDef
      | Some gps \<Rightarrow>
          (case generics typeInfo of
             None \<Rightarrow> methods typeDef
           | Some gs \<Rightarrow>
               (let genericMap = foldl (\<lambda>m p. m(fst p \<mapsto> snd p)) Map.empty (zip gps gs) in
                map (\<lambda>method. method
                       \<lparr>returnType := resolveGenericType (returnType method) genericMap,
                        params := map (\<lambda>p. p\<lparr>param_type := resolveGenericType (param_type p) genericMap\<rparr>)
                                    (params method)\<rparr>)
                    (methods typeDef))))"

definition getMethodsForType :: "TypeRegistry \<Rightarrow> TypeInfo \<Rightarrow> MethodInfo list \<times> TypeRegistry" where
  "getMethodsForType reg typeInfo =
     (case map_of (builtinTypes reg) (tkind typeInfo) of
        Some builtinDef \<Rightarrow> (resolveGenericMethods builtinDef typeInfo, reg)
      | None \<Rightarrow>
          (let typeName = (case readonlyName typeInfo of Some r \<Rightarrow> r | None \<Rightarrow> tkind typeInfo) in
           case map_of (userTypes reg) typeName of
             Some userDef \<Rightarrow> (methods userDef, reg)
           | None \<Rightarrow> ([], reg)))"

section \<open>The inference engine (class \<open>InferenceEngine\<close>, kept in inlay.ts)\<close>

text \<open>\<open>String.prototype.split(/\r?\n/)\<close> and \<open>rhs.replace(/;$/, "")\<close>.\<close>

fun split_crlf :: "string \<Rightarrow> string list" where
  "split_crlf [] = [[]]"
| "split_crlf [c] = (if c = LF then [[], []] else [[c]])"
| "split_crlf (c # d # cs) =
     (if c = CR \<and> d = LF then [] # split_crlf cs
      else if c = LF then [] # split_crlf (d # cs)
      else (case split_crlf (d # cs) of [] \<Rightarrow> [[c]] | l # ls \<Rightarrow> (c # l) # ls))"

definition stripSemicolon :: "string \<Rightarrow> string" where
  "stripSemicolon s = (if s \<noteq> [] \<and> last s = CHR '';'' then butlast s else s)"

text \<open>The patterns of the engine, in the order of the source.\<close>

definition initRegex :: regex where
  "initRegex =
     Seqs [WordB, Alt (Str ''var'') (Str ''val''), Plus (Cls space), Group 1 ident,
           Star (Cls space), Lit CHR ''='', Star (Cls space), Group 2 (Plus (Cls dot)), Eol]"

definition doubleQuoted :: regex where
  "doubleQuoted = Seqs [Bol, Lit (CHR 0x22), Star (Cls dot), Lit (CHR 0x22), Eol]"

definition singleQuoted :: regex where
  "singleQuoted = Seqs [Bol, Lit (CHR 0x27), Star (Cls dot), Lit (CHR 0x27), Eol]"

definition boolLiteral :: regex where
  "boolLiteral = Seqs [Bol, Group 1 (Alt (Str ''true'') (Str ''false'')), Eol]"

definition numericLiteral :: regex where
  "numericLiteral =
     Seqs [Bol, Plus (Cls digit), Opt (Group 1 (Seq (Lit CHR ''.'') (Plus (Cls digit)))), Eol]"

definition constructorWithGenerics :: "string \<Rightarrow> regex" where
  "constructorWithGenerics typeName =
     Seqs [Bol, Star (Cls space), Str typeName,
           Opt (Group 1 (Seqs [Star (Cls space), Lit CHR ''<'', Star (Cls dot), Lit CHR ''>''])),
           Str ''.new'', Star (Cls space), Lit CHR ''('']"

definition constructorPlain :: "string \<Rightarrow> regex" where
  "constructorPlain typeName =
     Seqs [Bol, Star (Cls space), Str typeName, Str ''.new'', Star (Cls space), Lit CHR ''('']"

definition callSyntax :: regex where
  "callSyntax = Seqs [Bol, ident, Lit CHR ''('', Star (Cls dot), Lit CHR '')'', Eol]"

definition addRegex :: regex where
  "addRegex =
     Seqs [Group 1 ident, Str ''.add'', Star (Cls space), Lit CHR ''('', Star (Cls space),
           Group 2 (PlusLazy (Cls dot)), Star (Cls space), Lit CHR '')'']"

definition putRegex :: regex where
  "putRegex =
     Seqs [Group 1 ident, Str ''.put'', Star (Cls space), Lit CHR ''('', Star (Cls space),
           Group 2 (PlusLazy (Cls dot)), Star (Cls space), Lit CHR '','', Star (Cls space),
           Group 3 (PlusLazy (Cls dot)), Star (Cls space), Lit CHR '')'']"

definition binRegex :: regex where
  "binRegex =
     Seqs [Group 1 (Alt ident (Plus (Cls digit))), Star (Cls space),
           Group 2 (Cls (OneOf ''+-*/'')), Star (Cls space),
           Group 3 (Alt ident (Plus (Cls digit)))]"

definition digitsOnly :: regex where
  "digitsOnly = Seqs [Bol, Plus (Cls digit), Eol]"

definition assignRegex :: regex where
  "assignRegex =
     Seqs [WordB, Alt (Str ''var'') (Str ''val''), Plus (Cls space), Group 1 ident,
           Star (Cls space), Lit CHR ''='', Star (Cls space), Plus (Cls dot)]"

text \<open>\<open>typeToString\<close>; the argument is optional in the source.\<close>

fun join :: "string \<Rightarrow> string list \<Rightarrow> string" where
  "join sep [] = []"
| "join sep [s] = s"
| "join sep (s # ss) = s @ sep @ join sep ss"

function typeToString :: "TypeInfo option \<Rightarrow> string" where
  "typeToString None = ''RandomAny''"
| "typeToString (Some ty) =
     (let shown = (case readonlyName ty of Some r \<Rightarrow> r | None \<Rightarrow> tkind ty) in
      case generics ty of
        None \<Rightarrow> shown
      | Some gs \<Rightarrow>
          if length gs = 0 then shown
          else shown @ ''<'' @ join '', '' (map (\<lambda>g. typeToString (Some g)) gs) @ ''>'')"
  by pat_completeness auto
termination
  by (relation "measure (\<lambda>x. case x of None \<Rightarrow> 0 | Some ty \<Rightarrow> size ty)")
     (auto dest: size_generics)

text \<open>
  \<open>mergeTypes\<close>. An array is truthy even when empty, so \<open>a.generics && b.generics\<close> asks
  that both lists are present; with equal lengths, mapping over \<open>a.generics\<close> with the
  index into \<open>b.generics\<close> is a map over the zipped lists.
\<close>

function mergeTypes :: "TypeInfo \<Rightarrow> TypeInfo \<Rightarrow> TypeInfo" where
  "mergeTypes a b =
     (if tkind a = tkind b then
        (case generics a of
           Some ga \<Rightarrow>
             (case generics b of
                Some gb \<Rightarrow>
                  if length ga = length gb
                  then make (tkind a) (Some (map (\<lambda>p. mergeTypes (fst p) (snd p)) (zip ga gb))) None
                  else a
              | None \<Rightarrow> a)
         | None \<Rightarrow> a)
      else if tkind a = ''RandomAny'' then b
      else if tkind b = ''RandomAny'' then a
      else make ''Custom'' None (Some (tkind a @ ''|'' @ tkind b)))"
  by pat_completeness auto
termination
  by (relation "measure (\<lambda>(a, b). size a)") (auto dest: set_zip_leftD size_generics)

declare mergeTypes.simps [simp del]


text \<open>
  The engine keeps one map from names to types, \<open>this.types\<close>; each private method is a
  function from the map before to the map after.
\<close>

type_synonym types = "string \<rightharpoonup> TypeInfo"

definition inferExpressionType :: "string \<Rightarrow> TypeInfo" where
  "inferExpressionType expr =
     (if test doubleQuoted expr \<or> test singleQuoted expr then make ''String'' None None
      else if test boolLiteral expr then make ''Bool'' None None
      else if test numericLiteral expr then make ''Int'' None None
      else if test (constructorWithGenerics ''List'') expr \<or> test (constructorPlain ''List'') expr
        then make ''List'' (Some [make ''RandomAny'' None None]) None
      else if test (constructorWithGenerics ''MutableMap'') expr
              \<or> test (constructorPlain ''MutableMap'') expr
        then make ''Map'' (Some [make ''RandomAny'' None None, make ''RandomAny'' None None]) None
      else if test (constructorWithGenerics ''MutableSet'') expr
              \<or> test (constructorPlain ''MutableSet'') expr
        then make ''Set'' (Some [make ''RandomAny'' None None]) None
      else if test callSyntax expr then make ''RandomAny'' None None
      else make ''RandomAny'' None None)"

lemma size_children: "c \<in> set (children n) \<Longrightarrow> size c < size n"
  by (cases n) (auto dest: size_list_estimation'[where f = size and y = "size c"] simp: less_Suc_eq_le)

text \<open>\<open>collectDeclarationsFromAST\<close>: the loop over the stack, which pops from the end.\<close>

function collectLoop :: "ASTNode list \<Rightarrow> types \<Rightarrow> types" where
  "collectLoop stack types =
     (if stack = [] then types
      else
        (let node = last stack;
             types' = (if kind node = Variable \<and> types (name node) = None
                       then types(name node \<mapsto> make ''RandomAny'' None None) else types)
         in collectLoop (butlast stack @ children node) types'))"
  by pat_completeness auto
termination
proof (relation "measure (\<lambda>(stack, types). sum_list (map size stack))", goal_cases)
  case 1
  show ?case by simp
next
  case (2 stack types node types')
  then obtain front where st: "stack = front @ [node]"
    by (metis append_butlast_last_id)
  have "sum_list (map size (children node)) < size node"
    by (cases node) (simp add: size_list_conv_sum_list)
  with st show ?case by simp
qed

declare collectLoop.simps [simp del]

definition collectDeclarationsFromAST :: "ASTNode \<Rightarrow> types \<Rightarrow> types" where
  "collectDeclarationsFromAST ast types = collectLoop [ast] types"

definition scanInitializersLine :: "types \<Rightarrow> string \<Rightarrow> types" where
  "scanInitializersLine types raw =
     (case exec initRegex (trim raw) of
        None \<Rightarrow> types
      | Some m \<Rightarrow>
          types(group m 1 \<mapsto> inferExpressionType (stripSemicolon (trim (group m 2)))))"

definition scanInitializers :: "string list \<Rightarrow> types \<Rightarrow> types" where
  "scanInitializers lines types = foldl scanInitializersLine types lines"

definition mergeListElementType :: "string \<Rightarrow> TypeInfo \<Rightarrow> types \<Rightarrow> types" where
  "mergeListElementType listName elemType types =
     (case types listName of
        None \<Rightarrow> types(listName \<mapsto> make ''List'' (Some [elemType]) None)
      | Some existing \<Rightarrow>
          if tkind existing = ''RandomAny''
          then types(listName \<mapsto> make ''List'' (Some [elemType]) None)
          else if tkind existing = ''List'' then
            (let cur = (case generics existing of
                          Some (g # _) \<Rightarrow> g
                        | _ \<Rightarrow> make ''RandomAny'' None None)
             in types(listName \<mapsto> make ''List'' (Some [mergeTypes cur elemType]) None))
          else types)"

definition mergeMapTypes :: "string \<Rightarrow> TypeInfo \<Rightarrow> TypeInfo \<Rightarrow> types \<Rightarrow> types" where
  "mergeMapTypes mapName keyType valType types =
     (case types mapName of
        None \<Rightarrow> types(mapName \<mapsto> make ''Map'' (Some [keyType, valType]) None)
      | Some existing \<Rightarrow>
          if tkind existing = ''RandomAny''
          then types(mapName \<mapsto> make ''Map'' (Some [keyType, valType]) None)
          else if tkind existing = ''Map'' then
            (let curKey = (case generics existing of
                             Some (g # _) \<Rightarrow> g
                           | _ \<Rightarrow> make ''RandomAny'' None None);
                 curVal = (case generics existing of
                             Some (_ # g # _) \<Rightarrow> g
                           | _ \<Rightarrow> make ''RandomAny'' None None)
             in types(mapName \<mapsto>
                  make ''Map'' (Some [mergeTypes curKey keyType, mergeTypes curVal valType]) None))
          else types)"

definition scanCollectionUsagesLine :: "types \<Rightarrow> string \<Rightarrow> types" where
  "scanCollectionUsagesLine types raw =
     (let types' = (case exec addRegex (trim raw) of
                      None \<Rightarrow> types
                    | Some m \<Rightarrow>
                        mergeListElementType (group m 1) (inferExpressionType (group m 2)) types)
      in case exec putRegex (trim raw) of
           None \<Rightarrow> types'
         | Some m \<Rightarrow>
             mergeMapTypes (group m 1) (inferExpressionType (group m 2))
               (inferExpressionType (group m 3)) types')"

definition scanCollectionUsages :: "string list \<Rightarrow> types \<Rightarrow> types" where
  "scanCollectionUsages lines types = foldl scanCollectionUsagesLine types lines"

definition operandType :: "types \<Rightarrow> string \<Rightarrow> TypeInfo" where
  "operandType types operand =
     (if test digitsOnly operand then make ''Int'' None None
      else (case types operand of Some ty \<Rightarrow> ty | None \<Rightarrow> make ''RandomAny'' None None))"

definition scanBinaryOpsLine :: "types \<Rightarrow> string \<Rightarrow> types" where
  "scanBinaryOpsLine types raw =
     (case exec binRegex (trim raw) of
        None \<Rightarrow> types
      | Some m \<Rightarrow>
          if tkind (operandType types (group m 1)) = ''Int''
             \<and> tkind (operandType types (group m 3)) = ''Int''
          then (case exec assignRegex (trim raw) of
                  None \<Rightarrow> types
                | Some am \<Rightarrow> types(group am 1 \<mapsto> make ''Int'' None None))
          else types)"

definition scanBinaryOps :: "string list \<Rightarrow> types \<Rightarrow> types" where
  "scanBinaryOps lines types = foldl scanBinaryOpsLine types lines"

definition inferFromText :: "string \<Rightarrow> ASTNode option \<Rightarrow> types" where
  "inferFromText text ast =
     (let lines = split_crlf text;
          types0 = (case ast of None \<Rightarrow> Map.empty
                    | Some a \<Rightarrow> collectDeclarationsFromAST a Map.empty)
      in scanBinaryOps lines (scanCollectionUsages lines (scanInitializers lines types0)))"

section \<open>Expression inference (class \<open>ExpressionInference\<close>, kept in unnamed/part_005)\<close>

text \<open>
  The later engine infers the type of an expression in a class of its own, which reads
  the literals and the constructors through the pattern library and hands the generic
  arguments of a constructor to the type parser. The class \<open>TypeParser\<close> is not among the
  sources: \<open>ExpressionInference\<close> holds a reference to an instance and calls four of its
  methods, which are the four fields of the record \<open>TypeParser\<close> declared with the types,
  so that every statement about the class is a statement for every type parser.

  The function \<open>make\<close> of this class takes a fourth, optional argument
  \<open>hasTypeAnnotation\<close>, which no call in the class passes; the field it fills is
  \<open>undefined\<close> in every value built here and is not part of \<open>TypeInfo\<close>. The placeholder
  kind of this class is \<open>Unknown\<close>. The field \<open>types\<close> of the class is \<open>ei_types\<close>, and its
  method \<open>inferExpressionType\<close> is \<open>inferExpressionType_EI\<close>: both names are taken by the
  engine above.
\<close>





section \<open>A type parser after the specification\<close>













section \<open>Properties and test documents\<close>

subsection \<open>Spans of the tree\<close>

text \<open>
  \<open>ascending\<close>: each sibling ends before the next one starts. \<open>wf_node\<close> is what the
  parser establishes for every node: the header line starts the span, the span ends where
  \<open>findBlockEnd\<close> says, and the children are the scanned nodes of the block followed by the
  parameter nodes of the header. \<open>scanned_ok\<close> is what a scan of the lines \<open>i\<close> to \<open>e\<close>
  returns.
\<close>

fun ascending :: "ASTNode list \<Rightarrow> bool" where
  "ascending [] = True"
| "ascending [n] = True"
| "ascending (m # n # ns) = (endLine m < startLine n \<and> ascending (n # ns))"

definition headerParams :: "string list \<Rightarrow> NodeKind \<Rightarrow> nat \<Rightarrow> ASTNode list" where
  "headerParams lines k l =
     (if k = Class \<or> k = Actor \<or> k = Function then parseArguments (lines ! l) l else [])"

fun wf_node :: "string list \<Rightarrow> ASTNode \<Rightarrow> bool" where
  "wf_node lines (ASTNode k nm l s e cs) =
     (s = l \<and> l \<le> e \<and> e < length lines \<and>
      (k = Variable \<longrightarrow> e = l \<and> cs = []) \<and>
      (k \<noteq> Variable \<and> k \<noteq> Program \<longrightarrow> e = findBlockEnd lines l) \<and>
      (\<exists>body. cs = body @ headerParams lines k l \<and> ascending body \<and>
         (\<forall>c \<in> set body. (if k = Program then l \<le> startLine c else l < startLine c)
             \<and> startLine c \<le> e)) \<and>
      (\<forall>c \<in> set cs. wf_node lines c))"

definition scanned_ok :: "string list \<Rightarrow> nat \<Rightarrow> nat \<Rightarrow> ASTNode list \<Rightarrow> bool" where
  "scanned_ok lines i e cs =
     (ascending cs \<and> (\<forall>c \<in> set cs. i \<le> startLine c \<and> startLine c \<le> e \<and> wf_node lines c))"

text \<open>
  The span invariant as the specification states it, at one node: \<open>span_invariant\<close>. The
  invariant the parser keeps, \<open>span_invariant_amended\<close>, splits the children into those
  found by the scan of the block, \<open>scanned\<close>, and those on the header line,
  \<open>headerChildren\<close>.
\<close>

fun nonoverlapping :: "ASTNode list \<Rightarrow> bool" where
  "nonoverlapping [] = True"
| "nonoverlapping (n # ns) =
     ((\<forall>m \<in> set ns. endLine n < startLine m \<or> endLine m < startLine n) \<and> nonoverlapping ns)"

definition span_invariant :: "ASTNode \<Rightarrow> bool" where
  "span_invariant n =
     (startLine n \<le> line n \<and> line n \<le> endLine n \<and>
      (\<forall>c \<in> set (children n). startLine n \<le> startLine c \<and> endLine c \<le> endLine n) \<and>
      sorted (map startLine (children n)) \<and> nonoverlapping (children n))"

definition scanned :: "ASTNode \<Rightarrow> ASTNode list" where
  "scanned n =
     (if kind n = Program then children n
      else filter (\<lambda>c. startLine n < startLine c) (children n))"

definition headerChildren :: "ASTNode \<Rightarrow> ASTNode list" where
  "headerChildren n =
     (if kind n = Program then []
      else filter (\<lambda>c. \<not> startLine n < startLine c) (children n))"

definition span_invariant_amended :: "nat \<Rightarrow> ASTNode \<Rightarrow> bool" where
  "span_invariant_amended lastLine n =
     (startLine n \<le> line n \<and> line n \<le> endLine n \<and> endLine n \<le> lastLine \<and>
      (\<forall>c \<in> set (children n). startLine n \<le> startLine c \<and> startLine c \<le> endLine n) \<and>
      children n = scanned n @ headerChildren n \<and>
      sorted (map startLine (scanned n)) \<and> nonoverlapping (scanned n) \<and>
      (\<forall>p \<in> set (headerChildren n).
          kind p = Variable \<and> startLine p = line n \<and> endLine p = line n))"

text \<open>
  Two documents on which the invariant as the specification words it fails: in
  \<open>doc1\<close> the function \<open>f\<close> has no braces of its own, its block runs to the last line
  and past the end of the class that holds it; in \<open>doc2\<close> the parameter \<open>x\<close> of the
  header (line 0) is stored after the field \<open>y\<close> (line 1).
\<close>

definition doc1 :: string where
  "doc1 = ''class A {'' @ [LF] @ ''fun f()'' @ [LF] @ ''}'' @ [LF]"

definition doc2 :: string where
  "doc2 = ''class P(x: Int) {'' @ [LF] @ ''var y = 1'' @ [LF] @ ''}''"

subsection \<open>Unterminated headers\<close>









text \<open>A header with two parameters, and a method with one.\<close>

definition doc4 :: string where
  "doc4 = ''class P(a: Int, b: List<Int>) {'' @ [LF] @ ''  fun f(x: Int) {'' @ [LF]
            @ ''  }'' @ [LF] @ ''}''"

subsection \<open>Patterns and a trailing carriage return\<close>

text \<open>
  Three syntactic conditions on a pattern. \<open>fails_at_end r\<close>: \<open>r\<close> needs at least one
  character. \<open>stops_before c r\<close>: on input that ends with \<open>c\<close>, no match of \<open>r\<close> reaches the
  end. \<open>tail_blind c r\<close>: the matches of \<open>r\<close> that stop before an appended \<open>c\<close> are the
  matches without it; this excludes \<open>$\<close>, and asks that \<open>c\<close> is no word character where
  \<open>\b\<close> occurs and that a lookahead cannot reach \<open>c\<close>.
\<close>

fun fails_at_end :: "regex \<Rightarrow> bool" where
  "fails_at_end (Cls S) = True"
| "fails_at_end (Seq r1 r2) = (fails_at_end r1 \<or> fails_at_end r2)"
| "fails_at_end (Alt r1 r2) = (fails_at_end r1 \<and> fails_at_end r2)"
| "fails_at_end (Group n r) = fails_at_end r"
| "fails_at_end r = False"

fun stops_before :: "char \<Rightarrow> regex \<Rightarrow> bool" where
  "stops_before c (Cls S) = (\<not> cmem S c)"
| "stops_before c (Seq r1 r2) = (stops_before c r2 \<and> (stops_before c r1 \<or> fails_at_end r2))"
| "stops_before c (Alt r1 r2) = (stops_before c r1 \<and> stops_before c r2)"
| "stops_before c (Star r) = stops_before c r"
| "stops_before c (StarLazy r) = stops_before c r"
| "stops_before c (Group n r) = stops_before c r"
| "stops_before c r = True"

fun tail_blind :: "char \<Rightarrow> regex \<Rightarrow> bool" where
  "tail_blind c Eol = False"
| "tail_blind c WordB = (\<not> cmem wordc c)"
| "tail_blind c (Seq r1 r2) = (tail_blind c r1 \<and> tail_blind c r2)"
| "tail_blind c (Alt r1 r2) = (tail_blind c r1 \<and> tail_blind c r2)"
| "tail_blind c (Star r) = tail_blind c r"
| "tail_blind c (StarLazy r) = tail_blind c r"
| "tail_blind c (Group n r) = tail_blind c r"
| "tail_blind c (LookBehind r) = tail_blind c r"
| "tail_blind c (LookAhead r) = (tail_blind c r \<and> stops_before c r)"
| "tail_blind c r = True"

text \<open>Appending \<open>c\<close> to the input of a position, and of a result.\<close>

definition ext :: "char \<Rightarrow> pos \<Rightarrow> pos" where
  "ext c p = (fst p, snd p @ [c])"

definition ext1 :: "char \<Rightarrow> pos \<times> caps \<Rightarrow> pos \<times> caps" where
  "ext1 c q = (ext c (fst q), snd q)"

definition open_end :: "pos \<times> caps \<Rightarrow> bool" where
  "open_end q = (snd (fst q) \<noteq> [])"

text \<open>Two lines are the same up to a carriage return at the end of the second.\<close>

definition same_line :: "string \<Rightarrow> string \<Rightarrow> bool" where
  "same_line l l' = (l' = l \<or> l' = l @ [CR])"

definition same_lines :: "string list \<Rightarrow> string list \<Rightarrow> bool" where
  "same_lines ls ls' = list_all2 same_line ls ls'"

text \<open>The same text with \<open>\r\n\<close> for every \<open>\n\<close>.\<close>

definition to_crlf :: "string \<Rightarrow> string" where
  "to_crlf s = concat (map (\<lambda>c. if c = LF then [CR, LF] else [c]) s)"

subsection \<open>The first character of a match\<close>




subsection \<open>Methods and inferred types\<close>

text \<open>The return type and the parameter types of the method of a given name.\<close>

definition returnTypeOf :: "string \<Rightarrow> MethodInfo list \<Rightarrow> TypeInfo option" where
  "returnTypeOf nm ms = map_option returnType (find (\<lambda>m. method_name m = nm) ms)"

definition paramTypesOf :: "string \<Rightarrow> MethodInfo list \<Rightarrow> TypeInfo list option" where
  "paramTypesOf nm ms =
     map_option (\<lambda>m. map param_type (params m)) (find (\<lambda>m. method_name m = nm) ms)"

text \<open>
  What a line does to a name \<open>x\<close>, as the three scans of the engine read the line. The line
  \<open>declares\<close> \<open>x\<close> when the initializer pattern matches it with \<open>x\<close> as the declared name;
  its initializer is signed when the right-hand side the scan hands to
  \<open>inferExpressionType\<close> starts with \<open>-\<close> or \<open>+\<close>. The line \<open>receives\<close> on \<open>x\<close> when the
  \<open>add\<close> or the \<open>put\<close> pattern matches it with \<open>x\<close> as the receiver. The operator scan can
  assign \<open>x\<close> on the line when the operator pattern matches it and the assignment pattern
  matches it with \<open>x\<close> as the declared name.
\<close>

definition declares :: "string \<Rightarrow> string \<Rightarrow> bool" where
  "declares x raw =
     (case exec initRegex (trim raw) of None \<Rightarrow> False | Some m \<Rightarrow> group m 1 = x)"

definition signed_initializer :: "string \<Rightarrow> bool" where
  "signed_initializer raw =
     (case exec initRegex (trim raw) of
        None \<Rightarrow> False
      | Some m \<Rightarrow>
          (case stripSemicolon (trim (group m 2)) of
             [] \<Rightarrow> False
           | c # ds \<Rightarrow> c = CHR ''-'' \<or> c = CHR ''+''))"

definition receives :: "string \<Rightarrow> string \<Rightarrow> bool" where
  "receives x raw =
     ((case exec addRegex (trim raw) of None \<Rightarrow> False | Some m \<Rightarrow> group m 1 = x)
      \<or> (case exec putRegex (trim raw) of None \<Rightarrow> False | Some m \<Rightarrow> group m 1 = x))"

definition operator_assigns :: "string \<Rightarrow> string \<Rightarrow> bool" where
  "operator_assigns x raw =
     (exec binRegex (trim raw) \<noteq> None
      \<and> (case exec assignRegex (trim raw) of None \<Rightarrow> False | Some m \<Rightarrow> group m 1 = x))"

text \<open>
  Three documents that declare \<open>x\<close> with the initializer \<open>-5\<close>. In \<open>doc6\<close> the other lines
  declare other names; in \<open>doc9\<close> a later line calls \<open>add\<close> on \<open>x\<close>; in \<open>doc10\<close> the
  declaration shares its line with a subtraction of two literals.
\<close>

definition doc6 :: string where
  "doc6 = ''var x = -5'' @ [LF] @ ''val n = 3'' @ [LF] @ ''val k = n + 1'' @ [LF]"

definition doc9 :: string where
  "doc9 = ''var x = -5'' @ [LF] @ ''x.add(1)''"

definition doc10 :: string where
  "doc10 = ''1-1; var x = -5''"



section \<open>Lemmas\<close>

subsection \<open>What the parser establishes\<close>

text \<open>
  Every scan returns a list, never an error, when its last line is a line of the document,
  and the list it returns satisfies \<open>scanned_ok\<close>: by induction along the recursion of the
  scan.
\<close>

lemma ascending_Cons:
  "ascending rest \<Longrightarrow> (\<forall>c \<in> set rest. endLine n < startLine c) \<Longrightarrow> ascending (n # rest)"
  by (cases rest) auto

lemma wf_parseArguments:
  "l < length lines \<Longrightarrow> c \<in> set (parseArguments ln l) \<Longrightarrow> wf_node lines c"
  by (auto simp: parseArguments_def headerParams_def)

lemma wf_header:
  assumes "l < length lines" "lines \<noteq> []"
    and "k = Class \<or> k = Actor \<or> k = Function \<or> k = Block"
    and "ascending body"
    and "\<forall>c \<in> set body. Suc l \<le> startLine c \<and> startLine c \<le> findBlockEnd lines l \<and> wf_node lines c"
  shows "wf_node lines (ASTNode k nm l l (findBlockEnd lines l) (body @ headerParams lines k l))"
proof -
  have "\<forall>c \<in> set (headerParams lines k l). wf_node lines c"
    using assms(1) by (auto simp: headerParams_def dest: wf_parseArguments)
  moreover have "l \<le> findBlockEnd lines l" using assms(1) by (rule findBlockEnd_ge)
  moreover have "findBlockEnd lines l < length lines" using assms(2) by (rule findBlockEnd_less)
  ultimately show ?thesis using assms(3,4,5) by (auto intro!: exI[of _ body])
qed

lemma scanned_ok_Nil: "scanned_ok lines i e []"
  by (simp add: scanned_ok_def)

lemma scanned_ok_Cons:
  assumes "scanned_ok lines j e rest" "wf_node lines n" "i \<le> startLine n" "startLine n \<le> e"
    "endLine n < j" "i \<le> j"
  shows "scanned_ok lines i e (n # rest)"
  using assms unfolding scanned_ok_def
  by (auto intro!: ascending_Cons)

lemma scanned_ok_mono: "scanned_ok lines j e cs \<Longrightarrow> i \<le> j \<Longrightarrow> scanned_ok lines i e cs"
  by (auto simp: scanned_ok_def)

lemma parseBlockContent_scanned:
  "e < length lines \<Longrightarrow> \<exists>cs. parseBlockContent lines i e = Inr cs \<and> scanned_ok lines i e cs"
proof (induction lines i e rule: parseBlockContent.induct)
  case (1 lines i e)
  note IH = "1.IH" and e = \<open>e < length lines\<close>
  have ne: "lines \<noteq> []" using e by auto
  show ?case
  proof (cases "e < i")
    case True
    then show ?thesis by (simp add: parseBlockContent.simps[of lines i e] scanned_ok_Nil)
  next
    case False
    then have i: "i < length lines" "\<not> length lines \<le> i" "i \<le> e" using e by auto
    let ?b = "findBlockEnd lines i"
    have b: "i \<le> ?b" "?b < length lines"
      using i ne by (auto intro: findBlockEnd_ge findBlockEnd_less)
    show ?thesis
    proof (cases "extractFunctionNameWithOptionalIo (lines ! i)")
      case (Some f)
      from IH(5)[OF False i(2) Some b(2)] obtain body where
        body: "parseBlockContent lines (i + 1) ?b = Inr body" "scanned_ok lines (i + 1) ?b body"
        by blast
      from IH(6)[OF False i(2) Some body(1) e] obtain rest where
        rest: "parseBlockContent lines (?b + 1) e = Inr rest" "scanned_ok lines (?b + 1) e rest"
        by blast
      have "wf_node lines (ASTNode Function f i i ?b (body @ headerParams lines Function i))"
        using body(2) i ne by (intro wf_header) (auto simp: scanned_ok_def)
      then have "scanned_ok lines i e
          (ASTNode Function f i i ?b (body @ parseArguments (lines ! i) i) # rest)"
        using rest(2) i b by (intro scanned_ok_Cons[where j = "?b + 1"]) (auto simp: headerParams_def)
      then show ?thesis
        using False i Some body rest by (simp add: parseBlockContent.simps[of lines i e])
    next
      case None
      show ?thesis
      proof (cases "extractDeclarationKeywordAndName (lines ! i)")
        case (Some v)
        from IH(4)[OF False i(2) None Some e] obtain rest where
          rest: "parseBlockContent lines (i + 1) e = Inr rest" "scanned_ok lines (i + 1) e rest"
          by blast
        have "wf_node lines (ASTNode Variable v i i i [])"
          using i by (auto simp: headerParams_def)
        then have "scanned_ok lines i e (ASTNode Variable v i i i [] # rest)"
          using rest(2) i by (intro scanned_ok_Cons[where j = "i + 1"]) auto
        then show ?thesis
          using False i None Some rest by (simp add: parseBlockContent.simps[of lines i e])
      next
        case None2: None
        let ?c = "includes_str (lines ! i) ''while'' \<or> includes_str (lines ! i) ''if''
                      \<or> includes_str (lines ! i) ''else'' \<or> includes_str (lines ! i) ''for''"
        show ?thesis
        proof (cases ?c)
          case True
          from IH(1)[OF False i(2) None None2 True b(2)] obtain body where
            body: "parseBlockContent lines (i + 1) ?b = Inr body" "scanned_ok lines (i + 1) ?b body"
            by blast
          from IH(2)[OF False i(2) None None2 True body(1) e] obtain rest where
            rest: "parseBlockContent lines (?b + 1) e = Inr rest" "scanned_ok lines (?b + 1) e rest"
            by blast
          have "wf_node lines (ASTNode Block (''block_'' @ show_nat i) i i ?b (body @ headerParams lines Block i))"
            using body(2) i ne by (intro wf_header) (auto simp: scanned_ok_def)
          then have "scanned_ok lines i e (ASTNode Block (''block_'' @ show_nat i) i i ?b body # rest)"
            using rest(2) i b by (intro scanned_ok_Cons[where j = "?b + 1"]) (auto simp: headerParams_def)
          then show ?thesis
            using False i None None2 True body rest by (simp add: parseBlockContent.simps[of lines i e])
        next
          case F: False
          from IH(3)[OF False i(2) None None2 F e] obtain rest where
            rest: "parseBlockContent lines (i + 1) e = Inr rest" "scanned_ok lines (i + 1) e rest"
            by blast
          then show ?thesis
            using False i None None2 F by (auto simp add: parseBlockContent.simps[of lines i e] intro: scanned_ok_mono)
        qed
      qed
    qed
  qed
qed

lemma processClassDefinition_wf:
  assumes "i < length lines"
  shows "\<exists>n. processClassDefinition lines c i = Inr n \<and> wf_node lines n \<and> startLine n = i
            \<and> endLine n = findBlockEnd lines i \<and> kind n = Class"
proof -
  have ne: "lines \<noteq> []" using assms by auto
  from parseBlockContent_scanned[OF findBlockEnd_less[OF ne], of "i + 1" i] obtain body where
    body: "parseBlockContent lines (i + 1) (findBlockEnd lines i) = Inr body"
      "scanned_ok lines (i + 1) (findBlockEnd lines i) body"
    by blast
  have "wf_node lines (ASTNode Class c i i (findBlockEnd lines i) (body @ headerParams lines Class i))"
    using body(2) assms ne by (intro wf_header) (auto simp: scanned_ok_def)
  then show ?thesis using body(1) by (simp add: processClassDefinition_def headerParams_def)
qed

lemma processActorDefinition_wf:
  assumes "i < length lines"
  shows "\<exists>n. processActorDefinition lines c i = Inr n \<and> wf_node lines n \<and> startLine n = i
            \<and> endLine n = findBlockEnd lines i \<and> kind n = Actor"
proof -
  have ne: "lines \<noteq> []" using assms by auto
  from parseBlockContent_scanned[OF findBlockEnd_less[OF ne], of "i + 1" i] obtain body where
    body: "parseBlockContent lines (i + 1) (findBlockEnd lines i) = Inr body"
      "scanned_ok lines (i + 1) (findBlockEnd lines i) body"
    by blast
  have "wf_node lines (ASTNode Actor c i i (findBlockEnd lines i) (body @ headerParams lines Actor i))"
    using body(2) assms ne by (intro wf_header) (auto simp: scanned_ok_def)
  then show ?thesis using body(1) by (simp add: processActorDefinition_def headerParams_def)
qed

lemma parseTopLevel_scanned:
  "e < length lines \<Longrightarrow> \<exists>cs. parseTopLevel lines i e = Inr cs \<and> scanned_ok lines i e cs"
proof (induction lines i e rule: parseTopLevel.induct)
  case (1 lines i e)
  note IH = "1.IH" and e = \<open>e < length lines\<close>
  show ?case
  proof (cases "e < i")
    case True
    then show ?thesis by (simp add: parseTopLevel.simps[of lines i e] scanned_ok_Nil)
  next
    case False
    then have i: "i < length lines" "\<not> length lines \<le> i" "i \<le> e" using e by auto
    have b: "i \<le> findBlockEnd lines i" using i by (auto intro: findBlockEnd_ge)
    show ?thesis
    proof (cases "extractClassName (lines ! i)")
      case (Some c)
      from processClassDefinition_wf[OF i(1), of c] obtain n where
        n: "processClassDefinition lines c i = Inr n" "wf_node lines n" "startLine n = i"
          "endLine n = findBlockEnd lines i"
        by blast
      from IH(3)[OF False i(2) Some n(1) e] obtain rest where
        rest: "parseTopLevel lines (endLine n + 1) e = Inr rest"
          "scanned_ok lines (endLine n + 1) e rest"
        by blast
      have "scanned_ok lines i e (n # rest)"
        using rest(2) n i b by (intro scanned_ok_Cons[where j = "endLine n + 1"]) auto
      then show ?thesis
        using False i Some n rest by (simp add: parseTopLevel.simps[of lines i e])
    next
      case None
      show ?thesis
      proof (cases "extractActorName (lines ! i)")
        case (Some a)
        from processActorDefinition_wf[OF i(1), of a] obtain n where
          n: "processActorDefinition lines a i = Inr n" "wf_node lines n" "startLine n = i"
            "endLine n = findBlockEnd lines i"
          by blast
        from IH(2)[OF False i(2) None Some n(1) e] obtain rest where
          rest: "parseTopLevel lines (endLine n + 1) e = Inr rest"
            "scanned_ok lines (endLine n + 1) e rest"
          by blast
        have "scanned_ok lines i e (n # rest)"
          using rest(2) n i b by (intro scanned_ok_Cons[where j = "endLine n + 1"]) auto
        then show ?thesis
          using False i None Some n rest by (simp add: parseTopLevel.simps[of lines i e])
      next
        case None2: None
        from IH(1)[OF False i(2) None None2 e] obtain rest where
          rest: "parseTopLevel lines (i + 1) e = Inr rest" "scanned_ok lines (i + 1) e rest"
          by blast
        then show ?thesis
          using False i None None2
          by (auto simp add: parseTopLevel.simps[of lines i e] intro: scanned_ok_mono)
      qed
    qed
  qed
qed

lemma split_lf_nonempty: "split_lf s \<noteq> []"
  by (induction s) (auto split: list.splits)

lemma parse_wf:
  "\<exists>cs. parse text = Inr (ASTNode Program ''root'' 0 0 (length (split_lf text) - 1) cs)
        \<and> wf_node (split_lf text) (ASTNode Program ''root'' 0 0 (length (split_lf text) - 1) cs)"
proof -
  let ?lines = "split_lf text"
  have ne: "?lines \<noteq> []" by (rule split_lf_nonempty)
  then have last: "length ?lines - 1 < length ?lines" by (cases ?lines) auto
  from parseTopLevel_scanned[OF last, of 0] obtain cs where
    cs: "parseTopLevel ?lines 0 (length ?lines - 1) = Inr cs"
      "scanned_ok ?lines 0 (length ?lines - 1) cs"
    by blast
  have "wf_node ?lines (ASTNode Program ''root'' 0 0 (length ?lines - 1) cs)"
    using cs(2) last by (auto simp: scanned_ok_def headerParams_def intro!: exI[of _ cs])
  then show ?thesis using cs(1) by (simp add: parse_def Let_def)
qed

lemma wf_node_nodes: "wf_node lines root \<Longrightarrow> n \<in> set (nodes root) \<Longrightarrow> wf_node lines n"
proof (induction root rule: nodes.induct)
  case (1 k nm l s e cs)
  from "1.prems"(2) consider "n = ASTNode k nm l s e cs"
    | c where "c \<in> set cs" "n \<in> set (nodes c)" by auto
  then show ?case
  proof cases
    case 1
    then show ?thesis using "1.prems"(1) by simp
  next
    case 2
    moreover have "wf_node lines c" using "1.prems"(1) 2(1) by simp
    ultimately show ?thesis using "1.IH" by blast
  qed
qed

lemma ascending_after:
  "ascending (n # ns) \<Longrightarrow> \<forall>c \<in> set ns. startLine c \<le> endLine c \<Longrightarrow>
   \<forall>m \<in> set ns. endLine n < startLine m"
proof (induction ns arbitrary: n)
  case Nil
  then show ?case by simp
next
  case (Cons a ns)
  from Cons.prems have a: "endLine n < startLine a" "ascending (a # ns)" "startLine a \<le> endLine a"
    by auto
  from Cons.IH[OF a(2)] Cons.prems(2) have "\<forall>m \<in> set ns. endLine a < startLine m" by simp
  with a show ?case by fastforce
qed

lemma ascending_tail: "ascending (n # ns) \<Longrightarrow> ascending ns"
  by (cases ns) auto

lemma ascending_sorted:
  "ascending cs \<Longrightarrow> \<forall>c \<in> set cs. startLine c \<le> endLine c \<Longrightarrow>
   sorted (map startLine cs) \<and> nonoverlapping cs"
proof (induction cs)
  case Nil
  then show ?case by simp
next
  case (Cons n ns)
  have "\<forall>c \<in> set ns. startLine c \<le> endLine c" using Cons.prems(2) by simp
  from ascending_after[OF Cons.prems(1) this]
  have after: "\<forall>m \<in> set ns. endLine n < startLine m" .
  have "startLine n \<le> endLine n" using Cons.prems(2) by simp
  with after have "\<forall>m \<in> set ns. startLine n \<le> startLine m" by fastforce
  moreover have "sorted (map startLine ns) \<and> nonoverlapping ns"
    using Cons.IH ascending_tail[OF Cons.prems(1)] Cons.prems(2) by simp
  ultimately show ?case using after by auto
qed

lemma wf_node_span: "wf_node lines n \<Longrightarrow> startLine n \<le> endLine n"
  by (cases n) simp

lemma headerParams_shape:
  "p \<in> set (headerParams lines k l) \<Longrightarrow>
   kind p = Variable \<and> startLine p = l \<and> endLine p = l \<and> line p = l \<and> k \<noteq> Program"
  by (auto simp: headerParams_def parseArguments_def split: if_splits)

lemma wf_node_amended:
  assumes "wf_node lines n"
  shows "span_invariant_amended (length lines - 1) n"
proof (cases n)
  case (ASTNode k nm l s e cs)
  with assms obtain body where
    w: "s = l" "l \<le> e" "e < length lines" "cs = body @ headerParams lines k l" "ascending body"
      "\<forall>c \<in> set body. (if k = Program then l \<le> startLine c else l < startLine c) \<and> startLine c \<le> e"
      "\<forall>c \<in> set cs. wf_node lines c"
    by auto
  let ?hp = "headerParams lines k l"
  have hp: "\<forall>p \<in> set ?hp. kind p = Variable \<and> startLine p = l \<and> endLine p = l \<and> k \<noteq> Program"
    using headerParams_shape by blast
  have prog: "k = Program \<Longrightarrow> ?hp = []" by (simp add: headerParams_def)
  have sc: "scanned n = body"
  proof (cases "k = Program")
    case True
    then show ?thesis using ASTNode w(4) prog by (simp add: scanned_def)
  next
    case False
    have "filter (\<lambda>c. l < startLine c) body = body" using w(6) False by (simp add: filter_id_conv)
    moreover have "filter (\<lambda>c. l < startLine c) ?hp = []" using hp by (simp add: filter_empty_conv)
    ultimately show ?thesis using ASTNode w(1,4) False by (simp add: scanned_def)
  qed
  have hc: "headerChildren n = ?hp"
  proof (cases "k = Program")
    case True
    then show ?thesis using ASTNode prog by (simp add: headerChildren_def)
  next
    case False
    have "filter (\<lambda>c. \<not> l < startLine c) body = []" using w(6) False by (simp add: filter_empty_conv)
    moreover have "filter (\<lambda>c. \<not> l < startLine c) ?hp = ?hp" using hp by (simp add: filter_id_conv)
    ultimately show ?thesis using ASTNode w(1,4) False by (simp add: headerChildren_def)
  qed
  have "\<forall>c \<in> set body. startLine c \<le> endLine c" using w(4,7) wf_node_span by auto
  from ascending_sorted[OF w(5) this] have so: "sorted (map startLine body)" "nonoverlapping body"
    by auto
  have ch: "\<forall>c \<in> set cs. s \<le> startLine c \<and> startLine c \<le> e"
  proof
    fix c assume "c \<in> set cs"
    then consider "c \<in> set body" | "c \<in> set ?hp" using w(4) by auto
    then show "s \<le> startLine c \<and> startLine c \<le> e"
    proof cases
      case 1
      then show ?thesis using w(1,6) by (auto split: if_splits)
    next
      case 2
      then show ?thesis using hp w(1,2) by auto
    qed
  qed
  show ?thesis
    unfolding span_invariant_amended_def sc hc
    using ASTNode w(1,2,3,4) so ch hp by auto
qed

lemma parse_doc1:
  "parse doc1 = Inr (ASTNode Program ''root'' 0 0 3
       [ASTNode Class ''A'' 0 0 2 [ASTNode Function ''f'' 1 1 3 []]])"
  by code_simp

lemma parse_doc2:
  "parse doc2 = Inr (ASTNode Program ''root'' 0 0 2
       [ASTNode Class ''P'' 0 0 2 [ASTNode Variable ''y'' 1 1 1 [], ASTNode Variable ''x'' 0 0 0 []]])"
  by code_simp










lemma wf_node_header_children:
  assumes "wf_node lines n" "kind n = Class \<or> kind n = Actor \<or> kind n = Function"
  shows "filter (\<lambda>c. startLine c = line n) (children n) = parseArguments (lines ! line n) (line n)"
proof (cases n)
  case (ASTNode k nm l s e cs)
  with assms obtain body where
    w: "s = l" "cs = body @ headerParams lines k l"
      "\<forall>c \<in> set body. (if k = Program then l \<le> startLine c else l < startLine c) \<and> startLine c \<le> e"
    by auto
  have k: "k \<noteq> Program" "headerParams lines k l = parseArguments (lines ! l) l"
    using assms(2) ASTNode by (auto simp: headerParams_def)
  have "filter (\<lambda>c. startLine c = l) body = []" using w(3) k(1) by (auto simp: filter_empty_conv)
  moreover have "filter (\<lambda>c. startLine c = l) (parseArguments (lines ! l) l) = parseArguments (lines ! l) l"
    by (auto simp: filter_id_conv parseArguments_def)
  ultimately show ?thesis using ASTNode w(1,2) k(2) by simp
qed

lemma parse_doc4:
  "parse doc4 = Inr (ASTNode Program ''root'' 0 0 3
       [ASTNode Class ''P'' 0 0 3
          [ASTNode Function ''f'' 1 1 2 [ASTNode Variable ''x'' 1 1 1 []],
           ASTNode Variable ''a'' 0 0 0 [], ASTNode Variable ''b'' 0 0 0 []]])"
  by code_simp

lemma match_all_doc4:
  "match_all ARGUMENT_NAME_IN_SIGNATURE (split_lf doc4 ! 0) = [''a'', ''b'']"
  by code_simp

text \<open>
  On the same header the earlier revision of \<open>parseArguments\<close> makes one node, for the
  first of the two matches.
\<close>

lemma parseArguments_rev1_doc4:
  "parseArguments_rev1 (split_lf doc4 ! 0) 0 = [ASTNode Variable ''a'' 0 0 0 []]"
  by code_simp

subsection \<open>Line endings\<close>

text \<open>
  The parser splits on \<open>\n\<close> alone, so a document with \<open>\r\n\<close> line endings reaches it
  with a carriage return at the end of every line but the last. The lemmas below show that
  the patterns of the parser cannot see a carriage return appended to a line. First, what
  a match leaves of the input is a suffix of what it was given.
\<close>

lemma rmatch_suffix:
  "q \<in> set (rmatch r p cs) \<Longrightarrow> \<exists>u. snd p = u @ snd (fst q)"
proof (induction r p cs arbitrary: q rule: rmatch.induct)
  case (3 r1 r2 p cs)
  from "3.prems" obtain x where x: "x \<in> set (rmatch r1 p cs)" "q \<in> set (rmatch r2 (fst x) (snd x))"
    by auto
  from "3.IH"(1)[OF x(1)] "3.IH"(2)[OF x] show ?case by auto
next
  case (5 r p cs)
  from "5.prems"[unfolded rmatch.simps(5)[of r p cs]] consider "q = (p, cs)"
    | x where "x \<in> set (rmatch r p cs)" "length (snd (fst x)) < length (snd p)"
        "q \<in> set (rmatch (Star r) (fst x) (snd x))"
    by (auto split: if_splits)
  then show ?case
  proof cases
    case 1
    then show ?thesis by simp
  next
    case 2
    from "5.IH"(1)[OF 2(1)] "5.IH"(2)[OF 2] show ?thesis by auto
  qed
next
  case (6 r p cs)
  from "6.prems"[unfolded rmatch.simps(6)[of r p cs]] consider "q = (p, cs)"
    | x where "x \<in> set (rmatch r p cs)" "length (snd (fst x)) < length (snd p)"
        "q \<in> set (rmatch (StarLazy r) (fst x) (snd x))"
    by (auto split: if_splits)
  then show ?case
  proof cases
    case 1
    then show ?thesis by simp
  next
    case 2
    from "6.IH"(1)[OF 2(1)] "6.IH"(2)[OF 2] show ?thesis by auto
  qed
qed (auto split: list.splits if_splits)

lemma rmatch_at_end:
  "q \<in> set (rmatch r p cs) \<Longrightarrow> snd p = [] \<Longrightarrow> snd (fst q) = []"
  using rmatch_suffix by fastforce

lemma fails_at_end_sound:
  "fails_at_end r \<Longrightarrow> snd p = [] \<Longrightarrow> rmatch r p cs = []"
proof (induction r arbitrary: p cs)
  case (Seq r1 r2)
  show ?case
  proof (cases "fails_at_end r1")
    case True
    then show ?thesis using Seq.IH(1) Seq.prems(2) by simp
  next
    case False
    then have f2: "fails_at_end r2" using Seq.prems(1) by simp
    have "rmatch r2 (fst x) (snd x) = []" if "x \<in> set (rmatch r1 p cs)" for x
      using Seq.IH(2)[OF f2] rmatch_at_end[OF that Seq.prems(2)] by simp
    then show ?thesis by simp
  qed
qed auto

lemma snoc_suffix: "u @ s = x @ [c] \<Longrightarrow> s \<noteq> [] \<Longrightarrow> \<exists>y. s = y @ [c]"
  by (cases s rule: rev_cases) auto

lemma rmatch_open_suffix:
  assumes "q \<in> set (rmatch r p cs)" "snd p = x @ [c]" "snd (fst q) \<noteq> []"
  shows "\<exists>y. snd (fst q) = y @ [c]"
proof -
  from rmatch_suffix[OF assms(1)] obtain u where "snd p = u @ snd (fst q)" by blast
  with assms(2) have "u @ snd (fst q) = x @ [c]" by simp
  from snoc_suffix[OF this assms(3)] show ?thesis .
qed

lemma stops_before_sound:
  "stops_before c r \<Longrightarrow> snd p = x @ [c] \<Longrightarrow> q \<in> set (rmatch r p cs) \<Longrightarrow> snd (fst q) \<noteq> []"
proof (induction r p cs arbitrary: q x rule: rmatch.induct)
  case (2 S p cs)
  then show ?case by (cases x) (auto split: list.splits if_splits)
next
  case (3 r1 r2 p cs)
  from "3.prems"(3) obtain m where
    m: "m \<in> set (rmatch r1 p cs)" "q \<in> set (rmatch r2 (fst m) (snd m))"
    by auto
  have s2: "stops_before c r2" using "3.prems"(1) by simp
  have "snd (fst m) \<noteq> []"
  proof (cases "stops_before c r1")
    case True
    from "3.IH"(1)[OF True "3.prems"(2) m(1)] show ?thesis .
  next
    case False
    then have "fails_at_end r2" using "3.prems"(1) by simp
    from fails_at_end_sound[OF this, of "fst m" "snd m"] m(2) show ?thesis by auto
  qed
  from rmatch_open_suffix[OF m(1) "3.prems"(2) this] obtain y where "snd (fst m) = y @ [c]" ..
  from "3.IH"(2)[OF m(1) s2 this m(2)] show ?case .
next
  case (4 r1 r2 p cs)
  from "4.prems"(3) have "q \<in> set (rmatch r1 p cs) \<or> q \<in> set (rmatch r2 p cs)" by simp
  moreover have "stops_before c r1" "stops_before c r2" using "4.prems"(1) by auto
  ultimately show ?case
    using "4.IH"(1)[OF _ "4.prems"(2), of q] "4.IH"(2)[OF _ "4.prems"(2), of q] by blast
next
  case (5 r p cs)
  from "5.prems"(3)[unfolded rmatch.simps(5)[of r p cs]] consider "q = (p, cs)"
    | m where "m \<in> set (rmatch r p cs)" "length (snd (fst m)) < length (snd p)"
        "q \<in> set (rmatch (Star r) (fst m) (snd m))"
    by (auto split: if_splits)
  then show ?case
  proof cases
    case 1
    then show ?thesis using "5.prems"(2) by simp
  next
    case 2
    have s: "stops_before c r" using "5.prems"(1) by simp
    from "5.IH"(1)[OF s "5.prems"(2) 2(1)] have "snd (fst m) \<noteq> []" .
    from rmatch_open_suffix[OF 2(1) "5.prems"(2) this] obtain y where "snd (fst m) = y @ [c]" ..
    from "5.IH"(2)[OF 2(1,2) "5.prems"(1) this 2(3)] show ?thesis .
  qed
next
  case (6 r p cs)
  from "6.prems"(3)[unfolded rmatch.simps(6)[of r p cs]] consider "q = (p, cs)"
    | m where "m \<in> set (rmatch r p cs)" "length (snd (fst m)) < length (snd p)"
        "q \<in> set (rmatch (StarLazy r) (fst m) (snd m))"
    by (auto split: if_splits)
  then show ?case
  proof cases
    case 1
    then show ?thesis using "6.prems"(2) by simp
  next
    case 2
    have s: "stops_before c r" using "6.prems"(1) by simp
    from "6.IH"(1)[OF s "6.prems"(2) 2(1)] have "snd (fst m) \<noteq> []" .
    from rmatch_open_suffix[OF 2(1) "6.prems"(2) this] obtain y where "snd (fst m) = y @ [c]" ..
    from "6.IH"(2)[OF 2(1,2) "6.prems"(1) this 2(3)] show ?thesis .
  qed
qed (auto split: list.splits if_splits)

lemma filter_concat_ext:
  assumes "filter open_end ys = map (ext1 c) xs"
    and "\<And>q. q \<in> set ys \<Longrightarrow> \<not> open_end q \<Longrightarrow> filter open_end (g q) = []"
    and "\<And>q. q \<in> set xs \<Longrightarrow> filter open_end (g (ext1 c q)) = map (ext1 c) (f q)"
  shows "filter open_end (concat (map g ys)) = map (ext1 c) (concat (map f xs))"
  using assms
proof (induction ys arbitrary: xs)
  case Nil
  then show ?case by simp
next
  case (Cons y ys)
  show ?case
  proof (cases "open_end y")
    case True
    with Cons.prems(1) obtain x xs0 where
      x: "xs = x # xs0" "y = ext1 c x" "filter open_end ys = map (ext1 c) xs0"
      by (cases xs) auto
    have "filter open_end (concat (map g ys)) = map (ext1 c) (concat (map f xs0))"
      using Cons.IH[OF x(3)] Cons.prems(2,3) x(1) by simp
    moreover have "filter open_end (g y) = map (ext1 c) (f x)"
      using Cons.prems(3)[of x] x(1,2) by simp
    ultimately show ?thesis using x(1) by simp
  next
    case False
    then have "filter open_end ys = map (ext1 c) xs" using Cons.prems(1) by simp
    from Cons.IH[OF this] Cons.prems(2,3)
    have "filter open_end (concat (map g ys)) = map (ext1 c) (concat (map f xs))" by simp
    moreover have "filter open_end (g y) = []" using Cons.prems(2)[of y] False by simp
    ultimately show ?thesis by simp
  qed
qed

lemma closed_stays_closed:
  "\<not> open_end q \<Longrightarrow> filter open_end (rmatch r (fst q) (snd q)) = []"
  by (auto simp: open_end_def filter_empty_conv dest: rmatch_at_end)

lemma rewind_ext: "rewind k (ext c p) = ext c (rewind k p)"
proof (induction k p rule: rewind.induct)
  case (1 p)
  then show ?case by simp
next
  case (2 k b a)
  then show ?case by (cases b) (simp_all add: ext_def)
qed

lemma ext_simps [simp]:
  "fst (ext c p) = fst p" "snd (ext c p) = snd p @ [c]"
  "fst (ext1 c q) = ext c (fst q)" "snd (ext1 c q) = snd q"
  by (simp_all add: ext_def ext1_def)

lemma open_end_ext1 [simp]: "open_end (ext1 c q)"
  by (simp add: open_end_def)

lemma bex_open:
  "(\<exists>q \<in> set xs. length (snd (fst q)) = Suc n)
   = (\<exists>q \<in> set (filter open_end xs). length (snd (fst q)) = Suc n)"
proof -
  have "open_end q" if "length (snd (fst q)) = Suc n" for q :: "pos \<times> caps"
    using that by (cases "snd (fst q)") (simp_all add: open_end_def)
  then show ?thesis by fastforce
qed

lemma filter_open_map:
  "(\<And>q. fst (h q) = fst q) \<Longrightarrow> filter open_end (map h xs) = map h (filter open_end xs)"
  by (induction xs) (auto simp: open_end_def)

lemma rmatch_ext:
  "tail_blind c r \<Longrightarrow> filter open_end (rmatch r (ext c p) cs) = map (ext1 c) (rmatch r p cs)"
proof (induction r p cs rule: rmatch.induct)
  case (1 p cs)
  show ?case by (simp add: open_end_def ext1_def)
next
  case (2 S p cs)
  show ?case by (cases "snd p") (auto simp: open_end_def ext1_def ext_def)
next
  case (3 r1 r2 p cs)
  have t: "tail_blind c r1" "tail_blind c r2" using "3.prems" by auto
  have "filter open_end (concat (map (\<lambda>q. rmatch r2 (fst q) (snd q)) (rmatch r1 (ext c p) cs)))
        = map (ext1 c) (concat (map (\<lambda>q. rmatch r2 (fst q) (snd q)) (rmatch r1 p cs)))"
  proof (rule filter_concat_ext)
    show "filter open_end (rmatch r1 (ext c p) cs) = map (ext1 c) (rmatch r1 p cs)"
      using "3.IH"(1)[OF t(1)] .
  next
    fix q assume "\<not> open_end q"
    then show "filter open_end (rmatch r2 (fst q) (snd q)) = []" by (rule closed_stays_closed)
  next
    fix q assume "q \<in> set (rmatch r1 p cs)"
    from "3.IH"(2)[OF this t(2)]
    show "filter open_end (rmatch r2 (fst (ext1 c q)) (snd (ext1 c q)))
          = map (ext1 c) (rmatch r2 (fst q) (snd q))" by simp
  qed
  then show ?case by simp
next
  case (4 r1 r2 p cs)
  then show ?case by simp
next
  case (5 r p cs)
  have t: "tail_blind c r" using "5.prems" by simp
  let ?g = "\<lambda>q. if length (snd (fst q)) < length (snd (ext c p))
                 then rmatch (Star r) (fst q) (snd q) else []"
  let ?f = "\<lambda>q. if length (snd (fst q)) < length (snd p)
                 then rmatch (Star r) (fst q) (snd q) else []"
  have "filter open_end (concat (map ?g (rmatch r (ext c p) cs)))
        = map (ext1 c) (concat (map ?f (rmatch r p cs)))"
  proof (rule filter_concat_ext)
    show "filter open_end (rmatch r (ext c p) cs) = map (ext1 c) (rmatch r p cs)"
      using "5.IH"(1)[OF t] .
  next
    fix q assume "\<not> open_end q"
    then show "filter open_end (?g q) = []" using closed_stays_closed[of q "Star r"] by simp
  next
    fix q assume q: "q \<in> set (rmatch r p cs)"
    show "filter open_end (?g (ext1 c q)) = map (ext1 c) (?f q)"
    proof (cases "length (snd (fst q)) < length (snd p)")
      case True
      from "5.IH"(2)[OF q True "5.prems"] True show ?thesis by simp
    next
      case False
      then show ?thesis by simp
    qed
  qed
  moreover have "open_end ((ext c p), cs)" "ext1 c (p, cs) = (ext c p, cs)"
    by (simp_all add: open_end_def ext1_def)
  ultimately show ?case
    unfolding rmatch.simps(5)[of r p cs] rmatch.simps(5)[of r "ext c p" cs] by simp
next
  case (6 r p cs)
  have t: "tail_blind c r" using "6.prems" by simp
  let ?g = "\<lambda>q. if length (snd (fst q)) < length (snd (ext c p))
                 then rmatch (StarLazy r) (fst q) (snd q) else []"
  let ?f = "\<lambda>q. if length (snd (fst q)) < length (snd p)
                 then rmatch (StarLazy r) (fst q) (snd q) else []"
  have "filter open_end (concat (map ?g (rmatch r (ext c p) cs)))
        = map (ext1 c) (concat (map ?f (rmatch r p cs)))"
  proof (rule filter_concat_ext)
    show "filter open_end (rmatch r (ext c p) cs) = map (ext1 c) (rmatch r p cs)"
      using "6.IH"(1)[OF t] .
  next
    fix q assume "\<not> open_end q"
    then show "filter open_end (?g q) = []" using closed_stays_closed[of q "StarLazy r"] by simp
  next
    fix q assume q: "q \<in> set (rmatch r p cs)"
    show "filter open_end (?g (ext1 c q)) = map (ext1 c) (?f q)"
    proof (cases "length (snd (fst q)) < length (snd p)")
      case True
      from "6.IH"(2)[OF q True "6.prems"] True show ?thesis by simp
    next
      case False
      then show ?thesis by simp
    qed
  qed
  moreover have "open_end ((ext c p), cs)" "ext1 c (p, cs) = (ext c p, cs)"
    by (simp_all add: open_end_def ext1_def)
  ultimately show ?case
    unfolding rmatch.simps(6)[of r p cs] rmatch.simps(6)[of r "ext c p" cs] by simp
next
  case (7 n r p cs)
  have t: "tail_blind c r" using "7.prems" by simp
  let ?h = "\<lambda>p q. (fst q, (n, take (length (snd p) - length (snd (fst q))) (snd p)) # snd q)"
  have "filter open_end (map (?h (ext c p)) (rmatch r (ext c p) cs))
        = map (?h (ext c p)) (filter open_end (rmatch r (ext c p) cs))"
    by (rule filter_open_map) simp
  also have "\<dots> = map (?h (ext c p)) (map (ext1 c) (rmatch r p cs))"
    using "7.IH"[OF t] by simp
  also have "\<dots> = map (ext1 c) (map (?h p) (rmatch r p cs))"
  proof -
    have "?h (ext c p) (ext1 c q) = ext1 c (?h p q)" if "q \<in> set (rmatch r p cs)" for q
    proof -
      from rmatch_suffix[OF that] obtain u where "snd p = u @ snd (fst q)" by blast
      then show ?thesis by (simp add: ext1_def)
    qed
    then show ?thesis by simp
  qed
  finally show ?case by simp
next
  case (8 p cs)
  show ?case by (simp add: open_end_def ext1_def)
next
  case (9 p cs)
  then show ?case by simp
next
  case (10 p cs)
  then have "at_word_boundary (ext c p) = at_word_boundary p"
    by (cases "snd p") (auto simp: at_word_boundary_def)
  then show ?case by (simp add: open_end_def ext1_def)
next
  case (11 r p cs)
  have t: "tail_blind c r" using "11.prems" by simp
  have "(\<exists>q \<in> set (rmatch r (rewind k (ext c p)) cs). length (snd (fst q)) = length (snd (ext c p)))
        = (\<exists>q \<in> set (rmatch r (rewind k p) cs). length (snd (fst q)) = length (snd p))"
    if k: "k \<in> set [0..<Suc (length (fst p))]" for k
  proof -
    from "11.IH"[OF k t]
    have e: "filter open_end (rmatch r (ext c (rewind k p)) cs) = map (ext1 c) (rmatch r (rewind k p) cs)" .
    have "(\<exists>q \<in> set (rmatch r (ext c (rewind k p)) cs). length (snd (fst q)) = Suc (length (snd p)))
          = (\<exists>q \<in> set (filter open_end (rmatch r (ext c (rewind k p)) cs)).
                length (snd (fst q)) = Suc (length (snd p)))"
      by (rule bex_open)
    also have "\<dots> = (\<exists>q \<in> set (rmatch r (rewind k p) cs). length (snd (fst q)) = length (snd p))"
      unfolding e by simp
    finally show ?thesis by (simp add: rewind_ext)
  qed
  then have "(\<exists>k \<in> set [0..<Suc (length (fst (ext c p)))].
               \<exists>q \<in> set (rmatch r (rewind k (ext c p)) cs). length (snd (fst q)) = length (snd (ext c p)))
        = (\<exists>k \<in> set [0..<Suc (length (fst p))].
               \<exists>q \<in> set (rmatch r (rewind k p) cs). length (snd (fst q)) = length (snd p))"
    by simp
  then show ?case by (simp add: open_end_def ext1_def)
next
  case (12 r p cs)
  have t: "tail_blind c r" "stops_before c r" using "12.prems" by auto
  have "\<forall>q \<in> set (rmatch r (ext c p) cs). open_end q"
    using stops_before_sound[OF t(2), of "ext c p" "snd p"] by (auto simp: open_end_def)
  then have "filter open_end (rmatch r (ext c p) cs) = rmatch r (ext c p) cs"
    by (simp add: filter_id_conv)
  with "12.IH"[OF t(1)] have "rmatch r (ext c p) cs = map (ext1 c) (rmatch r p cs)" by simp
  then show ?case by (cases "rmatch r p cs") (simp_all add: open_end_def ext1_def)
qed

lemma rmatch_ext_all:
  assumes "tail_blind c r" "stops_before c r"
  shows "rmatch r (b, a @ [c]) cs = map (ext1 c) (rmatch r (b, a) cs)"
proof -
  have "\<forall>q \<in> set (rmatch r (b, a @ [c]) cs). open_end q"
    using stops_before_sound[OF assms(2), of "(b, a @ [c])" a] by (auto simp: open_end_def)
  then have "filter open_end (rmatch r (b, a @ [c]) cs) = rmatch r (b, a @ [c]) cs"
    by (simp add: filter_id_conv)
  with rmatch_ext[OF assms(1), of "(b, a)" cs] show ?thesis by (simp add: ext_def)
qed

lemma search_ext:
  assumes "tail_blind c r" "stops_before c r" "fails_at_end r"
  shows "map_option (\<lambda>m. snd (snd m)) (search r (b, a @ [c]))
         = map_option (\<lambda>m. snd (snd m)) (search r (b, a))"
proof (induction a arbitrary: b)
  case Nil
  have "rmatch r (b, [c]) [] = []"
    using rmatch_ext_all[OF assms(1,2), of b "[]" "[]"] fails_at_end_sound[OF assms(3), of "(b, [])"]
    by simp
  moreover have "rmatch r (c # b, []) [] = []" "rmatch r (b, []) [] = []"
    using fails_at_end_sound[OF assms(3)] by simp_all
  ultimately show ?case by simp
next
  case (Cons d a)
  have e: "rmatch r (b, d # a @ [c]) [] = map (ext1 c) (rmatch r (b, d # a) [])"
    using rmatch_ext_all[OF assms(1,2), of b "d # a" "[]"] by simp
  show ?case
  proof (cases "rmatch r (b, d # a) []")
    case Nil
    then show ?thesis using e Cons.IH by simp
  next
    case (Cons q qs)
    then show ?thesis using e by simp
  qed
qed

lemma exec_ext:
  assumes "tail_blind c r" "stops_before c r" "fails_at_end r"
  shows "exec r (l @ [c]) = exec r l"
  using search_ext[OF assms] by (simp add: exec_def)

lemma match_all_from_ext:
  assumes "tail_blind c r" "stops_before c r" "fails_at_end r"
  shows "match_all_from r (b, a @ [c]) skip = match_all_from r (b, a) skip"
proof (induction a arbitrary: b skip)
  case Nil
  have "rmatch r (b, [c]) [] = []"
    using rmatch_ext_all[OF assms(1,2), of b "[]" "[]"] fails_at_end_sound[OF assms(3), of "(b, [])"]
    by simp
  moreover have "rmatch r (c # b, []) [] = []" "rmatch r (b, []) [] = []"
    using fails_at_end_sound[OF assms(3)] by simp_all
  ultimately show ?case by simp
next
  case (Cons d a)
  have e: "rmatch r (b, d # a @ [c]) [] = map (ext1 c) (rmatch r (b, d # a) [])"
    using rmatch_ext_all[OF assms(1,2), of b "d # a" "[]"] by simp
  show ?case
  proof (cases "rmatch r (b, d # a) []")
    case Nil
    then show ?thesis using e Cons.IH by simp
  next
    case (Cons q qs)
    have "q \<in> set (rmatch r (b, d # a) [])" using Cons by simp
    from rmatch_suffix[OF this] obtain u where u: "d # a = u @ snd (fst q)" by auto
    then have "length (d # a) = length u + length (snd (fst q))"
      by (metis length_append)
    then have n: "length (d # a @ [c]) - length (snd (fst (ext1 c q)))
                  = length (d # a) - length (snd (fst q))"
      "length (d # a) - length (snd (fst q)) \<le> length (d # a)"
      by simp_all
    have "take (length (d # a) - length (snd (fst q))) (d # a @ [c])
          = take (length (d # a) - length (snd (fst q))) (d # a)"
      using n(2) take_append[of "length (d # a) - length (snd (fst q))" "d # a" "[c]"] by simp
    then show ?thesis using e Cons Cons.IH n(1) by (simp add: Let_def)
  qed
qed

lemma match_all_ext:
  assumes "tail_blind c r" "stops_before c r" "fails_at_end r"
  shows "match_all r (l @ [c]) = match_all r l"
  using match_all_from_ext[OF assms] by (simp add: match_all_def)

lemma patterns_ignore_CR:
  "tail_blind CR CLASS_NAME \<and> stops_before CR CLASS_NAME \<and> fails_at_end CLASS_NAME"
  "tail_blind CR ACTOR_NAME \<and> stops_before CR ACTOR_NAME \<and> fails_at_end ACTOR_NAME"
  "tail_blind CR NAME_WITH_OPTIONAL_IO \<and> stops_before CR NAME_WITH_OPTIONAL_IO
     \<and> fails_at_end NAME_WITH_OPTIONAL_IO"
  "tail_blind CR KEYWORD_AND_NAME \<and> stops_before CR KEYWORD_AND_NAME
     \<and> fails_at_end KEYWORD_AND_NAME"
  "tail_blind CR ARGUMENT_NAME_IN_SIGNATURE \<and> stops_before CR ARGUMENT_NAME_IN_SIGNATURE
     \<and> fails_at_end ARGUMENT_NAME_IN_SIGNATURE"
  by code_simp+

lemma includes_str_CR:
  assumes "sub \<noteq> []" "CR \<notin> set sub"
  shows "includes_str (l @ [CR]) sub = includes_str l sub"
proof (induction l)
  case Nil
  have "take (length sub) [CR] \<noteq> sub"
    using assms by (cases sub) auto
  then show ?case using assms(1) by simp
next
  case (Cons x l)
  have "(take (length sub) (x # l @ [CR]) = sub) = (take (length sub) (x # l) = sub)"
  proof (cases "length sub \<le> length (x # l)")
    case True
    then show ?thesis using take_append[of "length sub" "x # l" "[CR]"] by simp
  next
    case False
    then have "take (length sub) (x # l @ [CR]) = x # l @ [CR]" by simp
    moreover have "take (length sub) (x # l) = x # l" using False by simp
    moreover have "x # l @ [CR] \<noteq> sub" using assms(2) by auto
    moreover have "x # l \<noteq> sub" using False by auto
    ultimately show ?thesis by simp
  qed
  then show ?case using Cons.IH by simp
qed

lemma countBraces_CR: "countBraces (l @ [CR]) bc fs = countBraces l bc fs"
  by (induction l bc fs rule: countBraces.induct) (simp_all add: CR_def)

lemma keywords_without_CR:
  "CR \<notin> set ''while''" "CR \<notin> set ''if''" "CR \<notin> set ''else''" "CR \<notin> set ''for''"
  by (simp_all add: CR_def)

lemma same_line_functions:
  assumes "same_line l l'"
  shows "extractClassName l' = extractClassName l"
    and "extractActorName l' = extractActorName l"
    and "extractFunctionNameWithOptionalIo l' = extractFunctionNameWithOptionalIo l"
    and "extractDeclarationKeywordAndName l' = extractDeclarationKeywordAndName l"
    and "parseArguments l' i = parseArguments l i"
    and "countBraces l' bc fs = countBraces l bc fs"
    and "includes_str l' ''while'' = includes_str l ''while''"
    and "includes_str l' ''if'' = includes_str l ''if''"
    and "includes_str l' ''else'' = includes_str l ''else''"
    and "includes_str l' ''for'' = includes_str l ''for''"
proof -
  from assms consider "l' = l" | "l' = l @ [CR]" by (auto simp: same_line_def)
  then have "extractClassName l' = extractClassName l
    \<and> extractActorName l' = extractActorName l
    \<and> extractFunctionNameWithOptionalIo l' = extractFunctionNameWithOptionalIo l
    \<and> extractDeclarationKeywordAndName l' = extractDeclarationKeywordAndName l
    \<and> parseArguments l' i = parseArguments l i
    \<and> countBraces l' bc fs = countBraces l bc fs
    \<and> includes_str l' ''while'' = includes_str l ''while''
    \<and> includes_str l' ''if'' = includes_str l ''if''
    \<and> includes_str l' ''else'' = includes_str l ''else''
    \<and> includes_str l' ''for'' = includes_str l ''for''"
  proof cases
    case 1
    then show ?thesis by simp
  next
    case 2
    have "exec CLASS_NAME l' = exec CLASS_NAME l" "exec ACTOR_NAME l' = exec ACTOR_NAME l"
      "exec NAME_WITH_OPTIONAL_IO l' = exec NAME_WITH_OPTIONAL_IO l"
      "exec KEYWORD_AND_NAME l' = exec KEYWORD_AND_NAME l"
      "match_all ARGUMENT_NAME_IN_SIGNATURE l' = match_all ARGUMENT_NAME_IN_SIGNATURE l"
      unfolding 2 using patterns_ignore_CR by (simp_all add: exec_ext match_all_ext)
    moreover have "countBraces l' bc fs = countBraces l bc fs"
      unfolding 2 by (rule countBraces_CR)
    moreover have "includes_str l' ''while'' = includes_str l ''while''"
      "includes_str l' ''if'' = includes_str l ''if''"
      "includes_str l' ''else'' = includes_str l ''else''"
      "includes_str l' ''for'' = includes_str l ''for''"
      unfolding 2 using keywords_without_CR by (simp_all add: includes_str_CR del: includes_str.simps)
    ultimately show ?thesis
      by (simp add: extractClassName_def extractActorName_def
          extractFunctionNameWithOptionalIo_def extractDeclarationKeywordAndName_def
          parseArguments_def)
  qed
  then show "extractClassName l' = extractClassName l"
    and "extractActorName l' = extractActorName l"
    and "extractFunctionNameWithOptionalIo l' = extractFunctionNameWithOptionalIo l"
    and "extractDeclarationKeywordAndName l' = extractDeclarationKeywordAndName l"
    and "parseArguments l' i = parseArguments l i"
    and "countBraces l' bc fs = countBraces l bc fs"
    and "includes_str l' ''while'' = includes_str l ''while''"
    and "includes_str l' ''if'' = includes_str l ''if''"
    and "includes_str l' ''else'' = includes_str l ''else''"
    and "includes_str l' ''for'' = includes_str l ''for''"
    by simp_all
qed

lemma same_lines_length: "same_lines ls ls' \<Longrightarrow> length ls' = length ls"
  by (simp add: same_lines_def list_all2_lengthD)

lemma same_lines_nth: "same_lines ls ls' \<Longrightarrow> i < length ls \<Longrightarrow> same_line (ls ! i) (ls' ! i)"
  by (simp add: same_lines_def list_all2_nthD)

lemma findBlockEndFrom_same:
  "same_lines ls ls' \<Longrightarrow> findBlockEndFrom ls' i bc fs = findBlockEndFrom ls i bc fs"
proof (induction ls i bc fs rule: findBlockEndFrom.induct)
  case (1 ls i bc fs)
  note same = "1.prems"
  note len = same_lines_length[OF same]
  show ?case
  proof (cases "i < length ls")
    case False
    then show ?thesis
      using len by (simp add: findBlockEndFrom.simps[of ls i] findBlockEndFrom.simps[of ls' i])
  next
    case True
    have cb: "countBraces (ls' ! i) bc fs = countBraces (ls ! i) bc fs"
      using same_line_functions(6)[OF same_lines_nth[OF same True]] .
    show ?thesis
    proof (cases "countBraces (ls ! i) bc fs")
      case None
      then show ?thesis
        using True len cb by (simp add: findBlockEndFrom.simps[of ls i] findBlockEndFrom.simps[of ls' i])
    next
      case (Some st)
      then show ?thesis
        using True len cb "1.IH"[OF True Some same]
        by (simp add: findBlockEndFrom.simps[of ls i] findBlockEndFrom.simps[of ls' i])
    qed
  qed
qed

lemma findBlockEnd_same: "same_lines ls ls' \<Longrightarrow> findBlockEnd ls' i = findBlockEnd ls i"
  using same_lines_length[of ls ls']
  by (simp add: findBlockEnd_def findBlockEndFrom_same split: option.splits)

lemma parseBlockContent_same:
  "same_lines ls ls' \<Longrightarrow> parseBlockContent ls' i e = parseBlockContent ls i e"
proof (induction ls i e rule: parseBlockContent.induct)
  case (1 ls i e)
  note same = "1.prems"
  note len = same_lines_length[OF same]
  note fb = findBlockEnd_same[OF same]
  show ?case
  proof (cases "e < i \<or> length ls \<le> i")
    case True
    then show ?thesis
      using len by (auto simp: parseBlockContent.simps[of ls i e] parseBlockContent.simps[of ls' i e])
  next
    case False
    then have i: "\<not> e < i" "\<not> length ls \<le> i" "i < length ls" by auto
    note sl = same_line_functions[OF same_lines_nth[OF same i(3)]]
    show ?thesis
      using i len "1.IH" same
      by (subst parseBlockContent.simps[of ls' i e], subst parseBlockContent.simps[of ls i e])
         (auto simp: sl fb split: option.splits sum.splits)
  qed
qed

lemma processDefinition_same:
  assumes "same_lines ls ls'" "i < length ls"
  shows "processClassDefinition ls' c i = processClassDefinition ls c i"
    and "processActorDefinition ls' c i = processActorDefinition ls c i"
proof -
  have pa: "parseArguments (ls' ! i) i = parseArguments (ls ! i) i"
    using same_line_functions(5)[OF same_lines_nth[OF assms]] .
  show "processClassDefinition ls' c i = processClassDefinition ls c i"
    by (simp add: processClassDefinition_def pa
        parseBlockContent_same[OF assms(1)] findBlockEnd_same[OF assms(1)] split: sum.splits)
  show "processActorDefinition ls' c i = processActorDefinition ls c i"
    by (simp add: processActorDefinition_def pa
        parseBlockContent_same[OF assms(1)] findBlockEnd_same[OF assms(1)] split: sum.splits)
qed

lemma parseTopLevel_same:
  "same_lines ls ls' \<Longrightarrow> parseTopLevel ls' i e = parseTopLevel ls i e"
proof (induction ls i e rule: parseTopLevel.induct)
  case (1 ls i e)
  note same = "1.prems"
  note len = same_lines_length[OF same]
  show ?case
  proof (cases "e < i \<or> length ls \<le> i")
    case True
    then show ?thesis
      using len by (auto simp: parseTopLevel.simps[of ls i e] parseTopLevel.simps[of ls' i e])
  next
    case False
    then have i: "\<not> e < i" "\<not> length ls \<le> i" "i < length ls" by auto
    note sl = same_line_functions[OF same_lines_nth[OF same i(3)]]
    note pd = processDefinition_same[OF same i(3)]
    show ?thesis
      using i len "1.IH" same
      by (subst parseTopLevel.simps[of ls' i e], subst parseTopLevel.simps[of ls i e])
         (auto simp: sl pd split: option.splits sum.splits)
  qed
qed

lemma to_crlf_simps:
  "to_crlf [] = []"
  "to_crlf (LF # s) = CR # LF # to_crlf s"
  "c \<noteq> LF \<Longrightarrow> to_crlf (c # s) = c # to_crlf s"
  by (simp_all add: to_crlf_def)

lemma CR_not_LF: "CR \<noteq> LF"
  by (simp add: CR_def LF_def)

lemma split_lf_to_crlf: "same_lines (split_lf s) (split_lf (to_crlf s))"
proof (induction s)
  case Nil
  show ?case by (simp add: to_crlf_simps same_lines_def same_line_def)
next
  case (Cons c s)
  have ne: "split_lf s \<noteq> []" "split_lf (to_crlf s) \<noteq> []" by (rule split_lf_nonempty)+
  then obtain l ls l' ls' where
    sp: "split_lf s = l # ls" "split_lf (to_crlf s) = l' # ls'"
    by (meson list.exhaust)
  with Cons.IH have r: "same_line l l'" "list_all2 same_line ls ls'"
    by (simp_all add: same_lines_def)
  show ?case
  proof (cases "c = LF")
    case True
    have "split_lf (to_crlf (c # s)) = [CR] # l' # ls'"
      using True sp(2) CR_not_LF by (simp add: to_crlf_simps)
    moreover have "split_lf (c # s) = [] # l # ls" using True sp(1) by simp
    ultimately show ?thesis using r by (simp add: same_lines_def same_line_def)
  next
    case False
    have "split_lf (to_crlf (c # s)) = (c # l') # ls'"
      using False sp(2) by (simp add: to_crlf_simps)
    moreover have "split_lf (c # s) = (c # l) # ls" using False sp(1) by simp
    ultimately show ?thesis using r by (auto simp: same_lines_def same_line_def)
  qed
qed

subsection \<open>The registry and the engine\<close>

lemmas builtin_defs =
  new_TypeRegistry_def initBuiltinTypes_def builtin_Int_def builtin_String_def builtin_Bool_def
  builtin_List_def builtin_MutableMap_def builtin_MutableSet_def

lemmas registry_defs =
  getMethodsForType_def resolveGenericMethods_def resolveGenericType.simps
  returnTypeOf_def paramTypesOf_def t_def generic_def make_def

text \<open>A pattern that starts with \<open>^\<close> can only match at the start of the input.\<close>

lemma search_Bol_after: "b \<noteq> [] \<Longrightarrow> search (Seq Bol r) (b, a) = None"
  by (induction a arbitrary: b) auto

lemma test_anchored: "test (Seq Bol r) s = (rmatch (Seq Bol r) ([], s) [] \<noteq> [])"
  by (cases s) (auto simp: test_def search_Bol_after split: list.splits)

lemma cls_fail: "\<not> cmem S c \<Longrightarrow> rmatch (Cls S) (b, c # a) cs = []"
  by simp

lemma star_cls_stop:
  "\<not> cmem S c \<Longrightarrow> rmatch (Star (Cls S)) (b, c # a) cs = [((b, c # a), cs)]"
  by (simp add: rmatch.simps(5))

lemma sign_chars:
  "sg = CHR ''-'' \<or> sg = CHR ''+'' \<Longrightarrow>
     \<not> cmem space sg \<and> \<not> cmem digit sg \<and> sg \<noteq> CHR 0x22 \<and> sg \<noteq> CHR 0x27
     \<and> sg \<noteq> CHR ''t'' \<and> sg \<noteq> CHR ''f'' \<and> sg \<noteq> CHR ''L'' \<and> sg \<noteq> CHR ''M''"
  by (auto simp: space_def digit_def)

lemma signed_tests:
  assumes "sg = CHR ''-'' \<or> sg = CHR ''+''"
  shows "\<not> test doubleQuoted (sg # ds)" "\<not> test singleQuoted (sg # ds)"
    "\<not> test boolLiteral (sg # ds)" "\<not> test numericLiteral (sg # ds)"
proof -
  note sc = sign_chars[OF assms]
  show "\<not> test doubleQuoted (sg # ds)"
    using sc by (simp add: doubleQuoted_def test_anchored Lit_def)
  show "\<not> test singleQuoted (sg # ds)"
    using sc by (simp add: singleQuoted_def test_anchored Lit_def)
  show "\<not> test boolLiteral (sg # ds)"
    using sc by (simp add: boolLiteral_def test_anchored Lit_def)
  show "\<not> test numericLiteral (sg # ds)"
    using sc by (simp add: numericLiteral_def test_anchored Lit_def Plus_def)
qed

lemma signed_constructor_tests:
  assumes "sg = CHR ''-'' \<or> sg = CHR ''+''" and "nm = c # rest" and "c \<noteq> sg"
  shows "\<not> test (constructorWithGenerics nm) (sg # ds)" "\<not> test (constructorPlain nm) (sg # ds)"
proof -
  note sc = sign_chars[OF assms(1)]
  have str: "rmatch (Seq (Str nm) r) (b, sg # ds) cs = []" for r b cs
    using assms(2,3) by (cases rest) (simp_all add: Lit_def)
  show "\<not> test (constructorWithGenerics nm) (sg # ds)"
    using sc str unfolding constructorWithGenerics_def test_anchored Seqs.simps
    by (simp del: rmatch.simps(3)
          add: rmatch.simps(3)[of Bol] rmatch.simps(3)[of "Star (Cls space)"] star_cls_stop)
  show "\<not> test (constructorPlain nm) (sg # ds)"
    using sc str unfolding constructorPlain_def test_anchored Seqs.simps
    by (simp del: rmatch.simps(3)
          add: rmatch.simps(3)[of Bol] rmatch.simps(3)[of "Star (Cls space)"] star_cls_stop)
qed

lemma signed_not_literal:
  assumes "sg = CHR ''-'' \<or> sg = CHR ''+''"
  shows "inferExpressionType (sg # ds) = make ''RandomAny'' None None"
proof -
  have "CHR ''L'' \<noteq> sg" "CHR ''M'' \<noteq> sg" using assms by auto
  then show ?thesis
    using signed_tests[OF assms, of ds]
      signed_constructor_tests[OF assms, of "''List''" "CHR ''L''" "''ist''" ds]
      signed_constructor_tests[OF assms, of "''MutableMap''" "CHR ''M''" "''utableMap''" ds]
      signed_constructor_tests[OF assms, of "''MutableSet''" "CHR ''M''" "''utableSet''" ds]
    by (simp add: inferExpressionType_def)
qed

text \<open>
  What the three scans of the engine do to the entry of a name \<open>x\<close>: a line that does not
  declare \<open>x\<close>, does not receive on \<open>x\<close>, or cannot assign \<open>x\<close> in the operator scan leaves
  the entry as it was, and a line that declares \<open>x\<close> with a signed initializer sets it to
  the placeholder.
\<close>

lemma scanInitializersLine_other:
  "\<not> declares x raw \<Longrightarrow> scanInitializersLine types raw x = types x"
  by (auto simp: declares_def scanInitializersLine_def split: option.splits)

lemma scanInitializersLine_signed:
  "declares x raw \<Longrightarrow> signed_initializer raw \<Longrightarrow>
   scanInitializersLine types raw x = Some (make ''RandomAny'' None None)"
  by (auto simp: declares_def signed_initializer_def scanInitializersLine_def signed_not_literal
           split: option.splits list.splits)

lemma scanInitializers_other:
  "\<forall>raw \<in> set ls. \<not> declares x raw \<Longrightarrow> foldl scanInitializersLine types ls x = types x"
  by (induction ls arbitrary: types) (simp_all add: scanInitializersLine_other)

lemma mergeListElementType_other:
  "n \<noteq> x \<Longrightarrow> mergeListElementType n e types x = types x"
  by (simp add: mergeListElementType_def Let_def split: option.splits)

lemma mergeMapTypes_other:
  "n \<noteq> x \<Longrightarrow> mergeMapTypes n k v types x = types x"
  by (simp add: mergeMapTypes_def Let_def split: option.splits)

lemma scanCollectionUsagesLine_other:
  "\<not> receives x raw \<Longrightarrow> scanCollectionUsagesLine types raw x = types x"
  by (auto simp: receives_def scanCollectionUsagesLine_def Let_def mergeListElementType_other
        mergeMapTypes_other split: option.splits)

lemma scanCollectionUsages_other:
  "\<forall>raw \<in> set ls. \<not> receives x raw \<Longrightarrow> foldl scanCollectionUsagesLine types ls x = types x"
  by (induction ls arbitrary: types) (simp_all add: scanCollectionUsagesLine_other)

lemma scanBinaryOpsLine_other:
  "\<not> operator_assigns x raw \<Longrightarrow> scanBinaryOpsLine types raw x = types x"
  by (auto simp: operator_assigns_def scanBinaryOpsLine_def split: option.splits)

lemma scanBinaryOps_other:
  "\<forall>raw \<in> set ls. \<not> operator_assigns x raw \<Longrightarrow> foldl scanBinaryOpsLine types ls x = types x"
  by (induction ls arbitrary: types) (simp_all add: scanBinaryOpsLine_other)

subsection \<open>Expression inference\<close>

















section \<open>The claims\<close>

text \<open>
  C1 (amended). For every input text, \<open>parse\<close> returns a tree, and every node of it has
  \<open>startLine \<le> line \<le> endLine\<close>, with \<open>endLine\<close> at most the last line of the document;
  every child starts inside the span of its parent; the children found by scanning the
  block (all that start after the header line; for the root, all children) come first, in
  ascending \<open>startLine\<close> order with spans that do not overlap; the children that follow
  are the parameter variables of the header, each on the header line.
\<close>

theorem C1_span_invariant_amended:
  "\<exists>root. parse text = Inr root \<and>
     (\<forall>n \<in> set (nodes root). span_invariant_amended (length (split_lf text) - 1) n)"
proof -
  from parse_wf obtain cs where
    "parse text = Inr (ASTNode Program ''root'' 0 0 (length (split_lf text) - 1) cs)"
    "wf_node (split_lf text) (ASTNode Program ''root'' 0 0 (length (split_lf text) - 1) cs)"
    by blast
  then show ?thesis using wf_node_nodes wf_node_amended by blast
qed

text \<open>
  C1 (counterexample). The class node of \<open>doc1\<close> has a child whose span is not inside its
  own, and the children of the class node of \<open>doc2\<close> are not in ascending order.
\<close>

theorem C1_counterexample:
  "parse doc1 = Inr (ASTNode Program ''root'' 0 0 3
       [ASTNode Class ''A'' 0 0 2 [ASTNode Function ''f'' 1 1 3 []]])
   \<and> \<not> span_invariant (ASTNode Class ''A'' 0 0 2 [ASTNode Function ''f'' 1 1 3 []])
   \<and> parse doc2 = Inr (ASTNode Program ''root'' 0 0 2
       [ASTNode Class ''P'' 0 0 2 [ASTNode Variable ''y'' 1 1 1 [], ASTNode Variable ''x'' 0 0 0 []]])
   \<and> \<not> span_invariant (ASTNode Class ''P'' 0 0 2
       [ASTNode Variable ''y'' 1 1 1 [], ASTNode Variable ''x'' 0 0 0 []])"
  using parse_doc1 parse_doc2 by (simp add: span_invariant_def)

text \<open>C1 (witness). The amended invariant at the class node of \<open>doc2\<close>.\<close>

theorem C1_witness:
  "parse doc2 = Inr (ASTNode Program ''root'' 0 0 2
       [ASTNode Class ''P'' 0 0 2 [ASTNode Variable ''y'' 1 1 1 [], ASTNode Variable ''x'' 0 0 0 []]])
   \<and> span_invariant_amended 2 (ASTNode Class ''P'' 0 0 2
       [ASTNode Variable ''y'' 1 1 1 [], ASTNode Variable ''x'' 0 0 0 []])
   \<and> scanned (ASTNode Class ''P'' 0 0 2
       [ASTNode Variable ''y'' 1 1 1 [], ASTNode Variable ''x'' 0 0 0 []]) = [ASTNode Variable ''y'' 1 1 1 []]"
proof -
  let ?C = "ASTNode Class ''P'' 0 0 2 [ASTNode Variable ''y'' 1 1 1 [], ASTNode Variable ''x'' 0 0 0 []]"
  from C1_span_invariant_amended[of doc2] obtain root where
    r: "parse doc2 = Inr root"
      "\<forall>n \<in> set (nodes root). span_invariant_amended (length (split_lf doc2) - 1) n"
    by blast
  have len: "length (split_lf doc2) - 1 = 2" by code_simp
  from r(1) parse_doc2 have "?C \<in> set (nodes root)" by auto
  with r(2) len have "span_invariant_amended 2 ?C" by auto
  then show ?thesis using parse_doc2 by (simp add: scanned_def)
qed









text \<open>
  C5. \<open>getMethodsForType\<close> of \<open>List<Int>\<close> has a method \<open>get\<close> that returns \<open>Int\<close>, not
  the placeholder \<open>T\<close>. For every type argument \<open>g\<close> the method \<open>get\<close> of \<open>List<g>\<close>
  returns \<open>g\<close>, the parameter \<open>element\<close> of \<open>set\<close> has type \<open>g\<close>, and the placeholder
  \<open>K\<close> nested in the return type \<open>List<K>\<close> of \<open>keys\<close> is replaced by the first
  argument of \<open>MutableMap<k, v>\<close>: the substitution is positional and reaches every
  occurrence in return and parameter types.
\<close>

theorem C5_List_get_returns_element_type:
  "returnTypeOf ''get''
      (fst (getMethodsForType new_TypeRegistry (t ''List'' (Some [t ''Int'' None None]) None)))
     = Some (t ''Int'' None None)
   \<and> returnTypeOf ''get'' (fst (getMethodsForType new_TypeRegistry (t ''List'' (Some [g]) None)))
     = Some g
   \<and> paramTypesOf ''set'' (fst (getMethodsForType new_TypeRegistry (t ''List'' (Some [g]) None)))
     = Some [t ''Int'' None None, g]
   \<and> returnTypeOf ''keys''
        (fst (getMethodsForType new_TypeRegistry (t ''MutableMap'' (Some [k, v]) None)))
     = Some (t ''List'' (Some [k]) None)"
  by (simp add: builtin_defs registry_defs)

text \<open>
  C6. \<open>mergeTypes a b\<close>, where the placeholder kind the specification calls Unknown is
  the kind \<open>RandomAny\<close> of the engine: with equal kinds and generics lists of equal length
  on both sides, the kind with the generics merged pairwise; with equal kinds otherwise,
  \<open>a\<close>; with different kinds, the other side when one side is the placeholder (it is then
  the only one that is), and else \<open>Custom\<close> with the display name \<open>a.kind|b.kind\<close>.
\<close>

theorem C6_mergeTypes:
  "(tkind a = tkind b \<and> generics a = Some ga \<and> generics b = Some gb \<and> length ga = length gb
      \<longrightarrow> mergeTypes a b
            = make (tkind a) (Some (map (\<lambda>p. mergeTypes (fst p) (snd p)) (zip ga gb))) None)
   \<and> (tkind a = tkind b
        \<and> \<not> (\<exists>ga gb. generics a = Some ga \<and> generics b = Some gb \<and> length ga = length gb)
      \<longrightarrow> mergeTypes a b = a)
   \<and> (tkind a \<noteq> tkind b \<and> tkind a = ''RandomAny'' \<longrightarrow> mergeTypes a b = b)
   \<and> (tkind a \<noteq> tkind b \<and> tkind b = ''RandomAny'' \<longrightarrow> mergeTypes a b = a)
   \<and> (tkind a \<noteq> tkind b \<and> tkind a \<noteq> ''RandomAny'' \<and> tkind b \<noteq> ''RandomAny''
      \<longrightarrow> mergeTypes a b = make ''Custom'' None (Some (tkind a @ ''|'' @ tkind b)))"
  by (auto simp: mergeTypes.simps[of a b] split: option.splits)

text \<open>C6 (witness). One pair of types for each of the five cases.\<close>

theorem C6_witness:
  "mergeTypes (make ''List'' (Some [make ''RandomAny'' None None]) None)
              (make ''List'' (Some [make ''Int'' None None]) None)
     = make ''List'' (Some [make ''Int'' None None]) None
   \<and> mergeTypes (make ''List'' (Some [make ''Int'' None None]) None) (make ''List'' None None)
     = make ''List'' (Some [make ''Int'' None None]) None
   \<and> mergeTypes (make ''RandomAny'' None None) (make ''Int'' None None) = make ''Int'' None None
   \<and> mergeTypes (make ''Int'' None None) (make ''RandomAny'' None None) = make ''Int'' None None
   \<and> mergeTypes (make ''Int'' None None) (make ''String'' None None)
     = make ''Custom'' None (Some ''Int|String'')"
proof -
  have inner: "mergeTypes (make ''RandomAny'' None None) (make ''Int'' None None) = make ''Int'' None None"
    using C6_mergeTypes[of "make ''RandomAny'' None None" "make ''Int'' None None"]
    by (simp add: make_def)
  have "mergeTypes (make ''List'' (Some [make ''RandomAny'' None None]) None)
              (make ''List'' (Some [make ''Int'' None None]) None)
     = make ''List'' (Some [make ''Int'' None None]) None"
    using C6_mergeTypes[of "make ''List'' (Some [make ''RandomAny'' None None]) None"
        "make ''List'' (Some [make ''Int'' None None]) None"
        "[make ''RandomAny'' None None]" "[make ''Int'' None None]"] inner
    by (simp add: make_def)
  moreover have "mergeTypes (make ''List'' (Some [make ''Int'' None None]) None) (make ''List'' None None)
     = make ''List'' (Some [make ''Int'' None None]) None"
    using C6_mergeTypes[of "make ''List'' (Some [make ''Int'' None None]) None" "make ''List'' None None"]
    by (simp add: make_def)
  moreover have "mergeTypes (make ''Int'' None None) (make ''RandomAny'' None None) = make ''Int'' None None"
    using C6_mergeTypes[of "make ''Int'' None None" "make ''RandomAny'' None None"]
    by (simp add: make_def)
  moreover have "mergeTypes (make ''Int'' None None) (make ''String'' None None)
     = make ''Custom'' None (Some ''Int|String'')"
    using C6_mergeTypes[of "make ''Int'' None None" "make ''String'' None None"]
    by (simp add: make_def)
  ultimately show ?thesis using inner by simp
qed

text \<open>
  C7. For every class, actor or function node of a parsed document, the children on the
  header line are exactly the variable nodes that \<open>parseArguments\<close> makes, one for each
  match of the parameter pattern on the header line, in order, with \<open>line\<close>,
  \<open>startLine\<close> and \<open>endLine\<close> the header line; so their number is the number of matches.
\<close>

theorem C7_parameter_nodes:
  assumes "parse text = Inr root" and "n \<in> set (nodes root)"
    and "kind n = Class \<or> kind n = Actor \<or> kind n = Function"
  shows "filter (\<lambda>c. startLine c = line n) (children n) =
           map (\<lambda>argName. ASTNode Variable (trim argName) (line n) (line n) (line n) [])
               (match_all ARGUMENT_NAME_IN_SIGNATURE (split_lf text ! line n))
         \<and> length (filter (\<lambda>c. startLine c = line n) (children n)) =
             length (match_all ARGUMENT_NAME_IN_SIGNATURE (split_lf text ! line n))"
proof -
  from parse_wf[of "text"] assms(1) have "wf_node (split_lf text) root" by auto
  then have "wf_node (split_lf text) n" using assms(2) by (rule wf_node_nodes)
  from wf_node_header_children[OF this assms(3)] show ?thesis
    by (simp add: parseArguments_def)
qed

text \<open>C7 (witness). The class of \<open>doc4\<close> declares two parameters and gets two variable children.\<close>

theorem C7_witness:
  "parse doc4 = Inr (ASTNode Program ''root'' 0 0 3
       [ASTNode Class ''P'' 0 0 3
          [ASTNode Function ''f'' 1 1 2 [ASTNode Variable ''x'' 1 1 1 []],
           ASTNode Variable ''a'' 0 0 0 [], ASTNode Variable ''b'' 0 0 0 []]])
   \<and> match_all ARGUMENT_NAME_IN_SIGNATURE (split_lf doc4 ! 0) = [''a'', ''b'']
   \<and> filter (\<lambda>c. startLine c = 0)
        [ASTNode Function ''f'' 1 1 2 [ASTNode Variable ''x'' 1 1 1 []],
         ASTNode Variable ''a'' 0 0 0 [], ASTNode Variable ''b'' 0 0 0 []]
      = [ASTNode Variable ''a'' 0 0 0 [], ASTNode Variable ''b'' 0 0 0 []]"
proof -
  let ?P = "ASTNode Class ''P'' 0 0 3
          [ASTNode Function ''f'' 1 1 2 [ASTNode Variable ''x'' 1 1 1 []],
           ASTNode Variable ''a'' 0 0 0 [], ASTNode Variable ''b'' 0 0 0 []]"
  have "?P \<in> set (nodes (ASTNode Program ''root'' 0 0 3 [?P]))" by simp
  from C7_parameter_nodes[OF parse_doc4 this] match_all_doc4
  have "filter (\<lambda>c. startLine c = line ?P) (children ?P) =
          map (\<lambda>argName. ASTNode Variable (trim argName) (line ?P) (line ?P) (line ?P) []) [''a'', ''b'']"
    by simp
  moreover have "trim ''a'' = ''a''" "trim ''b'' = ''b''" by code_simp+
  ultimately show ?thesis using parse_doc4 match_all_doc4 by simp
qed

text \<open>
  C8. For every document text, \<open>parse\<close> of the text with \<open>\r\n\<close> line endings returns the
  same tree as \<open>parse\<close> of the text with \<open>\n\<close> line endings: the same kinds, names,
  \<open>line\<close>, \<open>startLine\<close> and \<open>endLine\<close> values and the same children in the same order.
\<close>

theorem C8_crlf_same_tree: "parse (to_crlf text) = parse text"
  using split_lf_to_crlf[of "text"] same_lines_length[OF split_lf_to_crlf[of "text"]]
  by (simp add: parse_def Let_def parseTopLevel_same split: sum.splits)

text \<open>
  C9. \<open>getMethodsForType\<close> leaves the registry as it found it, for every registry and
  every type: the function only reads the two catalogs and builds new lists and records.
  After a query for \<open>List<Int>\<close> the stored \<open>get\<close> of \<open>List\<close> still returns the
  placeholder \<open>T\<close>, and a following query for \<open>List<String>\<close> gets \<open>String\<close>.
\<close>

theorem C9_getMethodsForType_frame:
  "snd (getMethodsForType reg typeInfo) = reg
   \<and> map_option (\<lambda>d. returnTypeOf ''get'' (methods d))
        (map_of (builtinTypes (snd (getMethodsForType new_TypeRegistry
                   (t ''List'' (Some [t ''Int'' None None]) None)))) ''List'')
     = Some (Some (generic ''T''))
   \<and> returnTypeOf ''get''
        (fst (getMethodsForType
                (snd (getMethodsForType new_TypeRegistry (t ''List'' (Some [t ''Int'' None None]) None)))
                (t ''List'' (Some [t ''String'' None None]) None)))
     = Some (t ''String'' None None)"
proof -
  have frame: "snd (getMethodsForType r ty) = r" for r ty
    by (simp add: getMethodsForType_def Let_def split: option.splits)
  show ?thesis
    unfolding frame by (simp add: builtin_defs registry_defs)
qed

text \<open>
  C10 (amended). For every document and every line of it that declares a name with an
  initializer that starts with a sign: if no later line declares the name, no line calls
  \<open>add\<close> or \<open>put\<close> on the name, and no line that the operator pattern matches declares the
  name, then the output of the engine maps the name to the placeholder \<open>RandomAny\<close> (shown as
  \<open>RandomAny\<close>), not to \<open>Int\<close>: \<open>inferExpressionType\<close> gives the placeholder for every
  expression that starts with a sign.
\<close>

theorem C10_signed_initializer_amended:
  assumes "split_crlf text = pre @ raw # post"
    and "declares x raw" and "signed_initializer raw"
    and "\<forall>l \<in> set post. \<not> declares x l"
    and "\<forall>l \<in> set (split_crlf text). \<not> receives x l \<and> \<not> operator_assigns x l"
  shows "inferFromText text ast x = Some (make ''RandomAny'' None None)
         \<and> typeToString (inferFromText text ast x) = ''RandomAny''
         \<and> (\<forall>sg ds. sg = CHR ''-'' \<or> sg = CHR ''+'' \<longrightarrow>
               inferExpressionType (sg # ds) = make ''RandomAny'' None None)"
proof -
  have "scanInitializers (split_crlf text) types x = Some (make ''RandomAny'' None None)" for types
    using assms(2,3,4)
    by (simp add: scanInitializers_def assms(1) scanInitializers_other scanInitializersLine_signed)
  then have "inferFromText text ast x = Some (make ''RandomAny'' None None)"
    using assms(5)
    by (simp add: inferFromText_def Let_def scanCollectionUsages_def
        scanBinaryOps_def scanBinaryOps_other scanCollectionUsages_other)
  then show ?thesis using signed_not_literal by (simp add: make_def)
qed

text \<open>
  C10 (counterexample). Both documents declare \<open>x\<close> with the initializer \<open>-5\<close>. In \<open>doc9\<close> the
  next line calls \<open>x.add(1)\<close> and the output maps \<open>x\<close> to \<open>List<Int>\<close>; in \<open>doc10\<close> the line
  also holds \<open>1-1\<close> and the operator scan sets \<open>x\<close> to \<open>Int\<close>.
\<close>

theorem C10_counterexample:
  "inferFromText doc9 None ''x'' = Some (make ''List'' (Some [make ''Int'' None None]) None)
   \<and> inferFromText doc10 None ''x'' = Some (make ''Int'' None None)
   \<and> declares ''x'' ''var x = -5'' \<and> signed_initializer ''var x = -5''
   \<and> declares ''x'' doc10 \<and> signed_initializer doc10"
  by code_simp

text \<open>
  C10 (witness). In the three-line document \<open>doc6\<close> the name \<open>x\<close>, declared as \<open>-5\<close>, gets the
  placeholder, while \<open>k\<close>, declared as \<open>n + 1\<close>, gets \<open>Int\<close>; \<open>5\<close> alone is an \<open>Int\<close> and the
  pattern library's \<open>isIntLiteral\<close> accepts \<open>-5\<close>.
\<close>

theorem C10_witness:
  "split_crlf doc6 = [''var x = -5'', ''val n = 3'', ''val k = n + 1'', []]
   \<and> inferFromText doc6 None ''x'' = Some (make ''RandomAny'' None None)
   \<and> typeToString (inferFromText doc6 None ''x'') = ''RandomAny''
   \<and> inferFromText doc6 None ''k'' = Some (make ''Int'' None None)
   \<and> inferExpressionType ''-5'' = make ''RandomAny'' None None
   \<and> inferExpressionType ''5'' = make ''Int'' None None
   \<and> isIntLiteral ''-5''"
proof -
  have 0: "split_crlf doc6 = [] @ ''var x = -5'' # [''val n = 3'', ''val k = n + 1'', []]"
    by code_simp
  have 1: "declares ''x'' ''var x = -5''" "signed_initializer ''var x = -5''" by code_simp+
  have 2: "\<forall>l \<in> set [''val n = 3'', ''val k = n + 1'', []]. \<not> declares ''x'' l"
    by code_simp
  have 3: "\<forall>l \<in> set (split_crlf doc6). \<not> receives ''x'' l \<and> \<not> operator_assigns ''x'' l"
    by code_simp
  have 4: "inferFromText doc6 None ''k'' = Some (make ''Int'' None None)" by code_simp
  have 5: "inferExpressionType ''5'' = make ''Int'' None None" by code_simp
  have 6: "isIntLiteral ''-5''" by code_simp
  from C10_signed_initializer_amended[OF 0 1 2 3, of None] 0 4 5 6
  show ?thesis by (simp add: make_def)
qed

end
